theory Spec2Isabelle
  imports Main "HOL-Library.Char_ord" "HOL-Library.List_Lexorder"
begin

section \<open>JavaScript values and the builtins the services rely on\<close>

text \<open>
  The mock services store plain JavaScript objects. A value is one of the primitives that
  occur in the three tables: \<open>undefined\<close>, \<open>null\<close>, a number or a string. Numbers are
  integer valued throughout the services (identities, counters, millisecond instants), so
  \<open>VNum\<close> carries an \<open>int\<close>; \<open>NaN\<close> only ever arises as the result of a conversion and
  is the \<open>None\<close> of an \<open>int option\<close>.
\<close>

datatype val = VUndefined | VNull | VNum int | VStr string

text \<open>
  An object is a finite map from property names to values; reading a property that is not
  there gives \<open>undefined\<close>. The spread \<open>{...a, ...b}\<close> is map override \<open>a ++ b\<close>.
\<close>

type_synonym row = "string \<rightharpoonup> val"

definition getv :: "row \<Rightarrow> string \<Rightarrow> val" where
  "getv r k = (case r k of None \<Rightarrow> VUndefined | Some v \<Rightarrow> v)"

text \<open>
  The language builtins that the code calls and that are not part of the repository are
  parameters of the model: \<open>toNumber\<close> is the numeric conversion of a string (\<open>None\<close> is
  \<open>NaN\<close>), \<open>dateParse\<close> is \<open>new Date(v).getTime()\<close> (\<open>None\<close> is \<open>NaN\<close>, an invalid
  date) and \<open>toISOString\<close> is \<open>new Date(ms).toISOString()\<close>.
\<close>

record js =
  toNumber :: "string \<Rightarrow> int option"
  dateParse :: "val \<Rightarrow> int option"
  toISOString :: "int \<Rightarrow> string"

datatype js_error = TypeError string | Error string

fun to_number :: "js \<Rightarrow> val \<Rightarrow> int option" where
  "to_number J VUndefined = None"
| "to_number J VNull = Some 0"
| "to_number J (VNum n) = Some n"
| "to_number J (VStr s) = toNumber J s"

text \<open>
  The relational operators: two strings are compared by code units, anything else is
  converted to numbers first, and a comparison with \<open>NaN\<close> is false.
\<close>

fun js_lt :: "js \<Rightarrow> val \<Rightarrow> val \<Rightarrow> bool" where
  "js_lt J (VStr s) (VStr t) = (s < t)"
| "js_lt J a b =
     (case (to_number J a, to_number J b) of (Some x, Some y) \<Rightarrow> x < y | _ \<Rightarrow> False)"

fun js_lte :: "js \<Rightarrow> val \<Rightarrow> val \<Rightarrow> bool" where
  "js_lte J (VStr s) (VStr t) = (s \<le> t)"
| "js_lte J a b =
     (case (to_number J a, to_number J b) of (Some x, Some y) \<Rightarrow> x \<le> y | _ \<Rightarrow> False)"

definition js_gt :: "js \<Rightarrow> val \<Rightarrow> val \<Rightarrow> bool" where
  "js_gt J a b = js_lt J b a"

definition js_gte :: "js \<Rightarrow> val \<Rightarrow> val \<Rightarrow> bool" where
  "js_gte J a b = js_lte J b a"

text \<open>Truthiness, as used by \<open>record.created_at || ...\<close>.\<close>

fun truthy :: "val \<Rightarrow> bool" where
  "truthy VUndefined = False"
| "truthy VNull = False"
| "truthy (VNum n) = (n \<noteq> 0)"
| "truthy (VStr s) = (s \<noteq> [])"

text \<open>\<open>String.prototype.endsWith\<close> and \<open>replace\<close> with a string pattern and an empty
  replacement (only the first occurrence is removed).\<close>

definition endsWith :: "string \<Rightarrow> string \<Rightarrow> bool" where
  "endsWith s suf = (length suf \<le> length s \<and> drop (length s - length suf) s = suf)"

definition startsWith :: "string \<Rightarrow> string \<Rightarrow> bool" where
  "startsWith s pre = (take (length pre) s = pre)"

fun removeFirst :: "string \<Rightarrow> string \<Rightarrow> string" where
  "removeFirst pat [] = []"
| "removeFirst pat (c # cs) =
     (if startsWith (c # cs) pat then drop (length pat) (c # cs) else c # removeFirst pat cs)"

fun includesStr :: "string \<Rightarrow> string \<Rightarrow> bool" where
  "includesStr [] pat = (pat = [])"
| "includesStr (c # cs) pat = (startsWith (c # cs) pat \<or> includesStr cs pat)"

text \<open>Template literals render a number in decimal.\<close>

fun digits :: "nat \<Rightarrow> string" where
  "digits n = (if n < 10 then [char_of (48 + n)] else digits (n div 10) @ [char_of (48 + n mod 10)])"

definition numberToString :: "int \<Rightarrow> string" where
  "numberToString i = (if i < 0 then CHR ''-'' # digits (nat (- i)) else digits (nat i))"

section \<open>The record store (MockDatabaseService)\<close>

text \<open>
  Each table is a JavaScript \<open>Map\<close> from identity to row; a \<open>Map\<close> iterates in insertion
  order, so a table is an association list. \<open>mapSet\<close> is \<open>Map.prototype.set\<close>: an
  existing key keeps its position.
\<close>

type_synonym table = "(int \<times> row) list"

fun mapSet :: "'k \<Rightarrow> 'v \<Rightarrow> ('k \<times> 'v) list \<Rightarrow> ('k \<times> 'v) list" where
  "mapSet k v [] = [(k, v)]"
| "mapSet k v ((k', v') # t) = (if k' = k then (k, v) # t else (k', v') # mapSet k v t)"

record db =
  reminders :: table
  sentReminders :: table
  conversations :: table
  nextId_reminders :: int
  nextId_sentReminders :: int
  nextId_conversations :: int

datatype db_error = UnknownTable string | Caught js_error

text \<open>A result object \<open>{data, error}\<close>: \<open>Inl e\<close> is \<open>{data: null, error: e}\<close> and
  \<open>Inr d\<close> is \<open>{data: d, error: null}\<close>.\<close>

type_synonym 'a db_result = "db_error + 'a"

text \<open>The filter object handed to \<open>executeSelect\<close>, as the list \<open>Object.entries\<close> yields.\<close>

type_synonym filters = "(string \<times> val) list"

text \<open>One iteration of the loop over \<open>Object.entries(filters)\<close> in \<open>executeSelect\<close>:
  \<open>True\<close> when the entry does not reject the record.\<close>

definition entryAccepts :: "js \<Rightarrow> row \<Rightarrow> string \<times> val \<Rightarrow> bool" where
  "entryAccepts J r e =
     (let key = fst e; v = snd e in
      if endsWith key ''_neq'' then getv r (removeFirst ''_neq'' key) \<noteq> v
      else if endsWith key ''_lt'' then js_lt J (getv r (removeFirst ''_lt'' key)) v
      else if endsWith key ''_lte'' then js_lte J (getv r (removeFirst ''_lte'' key)) v
      else if endsWith key ''_gt'' then js_gt J (getv r (removeFirst ''_gt'' key)) v
      else if endsWith key ''_gte'' then js_gte J (getv r (removeFirst ''_gte'' key)) v
      else getv r key = v)"

definition tableRows :: "db \<Rightarrow> string \<Rightarrow> table option" where
  "tableRows d t =
     (if t = ''reminders'' then Some (reminders d)
      else if t = ''sent_reminders'' then Some (sentReminders d)
      else if t = ''conversations'' then Some (conversations d)
      else None)"

definition executeSelect :: "js \<Rightarrow> db \<Rightarrow> string \<Rightarrow> filters \<Rightarrow> row list db_result" where
  "executeSelect J d t fs =
     (case tableRows d t of
        None \<Rightarrow> Inl (UnknownTable t)
      | Some rows \<Rightarrow> Inr (filter (\<lambda>r. list_all (entryAccepts J r) fs) (map snd rows)))"

text \<open>
  \<open>createSelectQuery\<close> returns an object with the predicate methods \<open>eq\<close>, \<open>neq\<close>, \<open>lt\<close>,
  \<open>lte\<close>, \<open>gt\<close>, \<open>gte\<close> and with \<open>then\<close>. Each predicate method returns an object whose
  only property is \<open>then\<close>. A query is therefore written as the list of predicate calls
  made before the final \<open>then\<close>: the empty list resolves directly, a single call resolves
  with that one filter, and a second predicate call is a call of \<open>undefined\<close>, which
  throws a \<open>TypeError\<close>. The \<open>columns\<close> argument of \<open>select\<close> is passed along and
  never read, so it is left out. (The \<open>order\<close> method is not modelled.)
\<close>

datatype predicate =
  Eq string val | Neq string val | Lt string val | Lte string val | Gt string val | Gte string val

fun filterOf :: "predicate \<Rightarrow> filters" where
  "filterOf (Eq c v) = [(c, v)]"
| "filterOf (Neq c v) = [(c @ ''_neq'', v)]"
| "filterOf (Lt c v) = [(c @ ''_lt'', v)]"
| "filterOf (Lte c v) = [(c @ ''_lte'', v)]"
| "filterOf (Gt c v) = [(c @ ''_gt'', v)]"
| "filterOf (Gte c v) = [(c @ ''_gte'', v)]"

fun methodName :: "predicate \<Rightarrow> string" where
  "methodName (Eq c v) = ''eq''"
| "methodName (Neq c v) = ''neq''"
| "methodName (Lt c v) = ''lt''"
| "methodName (Lte c v) = ''lte''"
| "methodName (Gt c v) = ''gt''"
| "methodName (Gte c v) = ''gte''"

fun createSelectQuery :: "js \<Rightarrow> db \<Rightarrow> string \<Rightarrow> predicate list \<Rightarrow> js_error + row list db_result" where
  "createSelectQuery J d t [] = Inr (executeSelect J d t [])"
| "createSelectQuery J d t [p] = Inr (executeSelect J d t (filterOf p))"
| "createSelectQuery J d t (p # q # ps) = Inl (TypeError (methodName q @ '' is not a function''))"


text \<open>
  \<open>executeInsert\<close>. The argument is a row or an array of rows, of which the first is
  taken; the first element of an empty array is \<open>undefined\<close>. The identity counter is
  advanced before the stored row is built, so it stays advanced when reading
  \<open>record.created_at\<close> of \<open>undefined\<close> throws; the \<open>catch\<close> turns that exception into an
  error result. Spreading \<open>undefined\<close> adds no property.
\<close>

datatype insert_data = One row | Many "row list"

fun firstRecord :: "insert_data \<Rightarrow> row option" where
  "firstRecord (One r) = Some r"
| "firstRecord (Many []) = None"
| "firstRecord (Many (r # rs)) = Some r"

definition orNow :: "js \<Rightarrow> int \<Rightarrow> val \<Rightarrow> val" where
  "orNow J now v = (if truthy v then v else VStr (toISOString J now))"

definition executeInsert :: "js \<Rightarrow> int \<Rightarrow> db \<Rightarrow> string \<Rightarrow> insert_data \<Rightarrow> row db_result \<times> db" where
  "executeInsert J now d t data =
     (let record = firstRecord data in
      if t = ''reminders'' then
        (let reminderId = nextId_reminders d;
             d1 = d\<lparr>nextId_reminders := reminderId + 1\<rparr>
         in case record of
              None \<Rightarrow> (Inl (Caught (TypeError ''Cannot read properties of undefined'')), d1)
            | Some r \<Rightarrow>
                (let reminderRecord =
                       r(''id'' \<mapsto> VNum reminderId,
                         ''created_at'' \<mapsto> orNow J now (getv r ''created_at''),
                         ''updated_at'' \<mapsto> VStr (toISOString J now))
                 in (Inr reminderRecord,
                     d1\<lparr>reminders := mapSet reminderId reminderRecord (reminders d1)\<rparr>)))
      else if t = ''sent_reminders'' then
        (let sentId = nextId_sentReminders d;
             d1 = d\<lparr>nextId_sentReminders := sentId + 1\<rparr>;
             sentRecord = (case record of None \<Rightarrow> Map.empty | Some r \<Rightarrow> r)(''id'' \<mapsto> VNum sentId)
         in (Inr sentRecord, d1\<lparr>sentReminders := mapSet sentId sentRecord (sentReminders d1)\<rparr>))
      else if t = ''conversations'' then
        (let convId = nextId_conversations d;
             d1 = d\<lparr>nextId_conversations := convId + 1\<rparr>
         in case record of
              None \<Rightarrow> (Inl (Caught (TypeError ''Cannot read properties of undefined'')), d1)
            | Some r \<Rightarrow>
                (let convRecord =
                       r(''id'' \<mapsto> VNum convId,
                         ''created_at'' \<mapsto> orNow J now (getv r ''created_at''))
                 in (Inr convRecord,
                     d1\<lparr>conversations := mapSet convId convRecord (conversations d1)\<rparr>)))
      else (Inl (UnknownTable t), d))"

text \<open>\<open>matchesFilters\<close>: every entry of the filter object is an equality.\<close>

definition matchesFilters :: "row \<Rightarrow> filters \<Rightarrow> bool" where
  "matchesFilters r fs = list_all (\<lambda>e. getv r (fst e) = snd e) fs"

text \<open>
  The loop of \<open>executeUpdate\<close> over the entries of one table: a matching row is replaced,
  under its own key, by \<open>f\<close> of it, and counted. (The keys of a \<open>Map\<close> are distinct, so
  \<open>set(id, ...)\<close> on the entry being visited rewrites that entry in place.)
\<close>

fun updateEntries :: "(row \<Rightarrow> row) \<Rightarrow> filters \<Rightarrow> table \<Rightarrow> table \<times> nat" where
  "updateEntries f fs [] = ([], 0)"
| "updateEntries f fs ((k, r) # t) =
     (let (t', updated) = updateEntries f fs t in
      if matchesFilters r fs then ((k, f r) # t', updated + 1) else ((k, r) # t', updated))"

text \<open>An unknown table falls through the \<open>switch\<close>: nothing is updated and the count is 0.\<close>

definition executeUpdate :: "js \<Rightarrow> int \<Rightarrow> db \<Rightarrow> string \<Rightarrow> row \<Rightarrow> filters \<Rightarrow> nat \<times> db" where
  "executeUpdate J now d t patch fs =
     (if t = ''reminders'' then
        (let (t', updated) =
               updateEntries (\<lambda>r. (r ++ patch)(''updated_at'' \<mapsto> VStr (toISOString J now))) fs (reminders d)
         in (updated, d\<lparr>reminders := t'\<rparr>))
      else if t = ''sent_reminders'' then
        (let (t', updated) = updateEntries (\<lambda>r. r ++ patch) fs (sentReminders d)
         in (updated, d\<lparr>sentReminders := t'\<rparr>))
      else if t = ''conversations'' then
        (let (t', updated) = updateEntries (\<lambda>r. r ++ patch) fs (conversations d)
         in (updated, d\<lparr>conversations := t'\<rparr>))
      else (0, d))"

fun deleteEntries :: "filters \<Rightarrow> table \<Rightarrow> table \<times> nat" where
  "deleteEntries fs [] = ([], 0)"
| "deleteEntries fs ((k, r) # t) =
     (let (t', deleted) = deleteEntries fs t in
      if matchesFilters r fs then (t', deleted + 1) else ((k, r) # t', deleted))"

definition executeDelete :: "db \<Rightarrow> string \<Rightarrow> filters \<Rightarrow> nat \<times> db" where
  "executeDelete d t fs =
     (if t = ''reminders'' then
        (let (t', deleted) = deleteEntries fs (reminders d) in (deleted, d\<lparr>reminders := t'\<rparr>))
      else if t = ''sent_reminders'' then
        (let (t', deleted) = deleteEntries fs (sentReminders d) in (deleted, d\<lparr>sentReminders := t'\<rparr>))
      else if t = ''conversations'' then
        (let (t', deleted) = deleteEntries fs (conversations d) in (deleted, d\<lparr>conversations := t'\<rparr>))
      else (0, d))"

text \<open>The identity counter of a table (\<open>nextId\<close>), \<open>0\<close> for a name that is no table.\<close>

definition nextId :: "db \<Rightarrow> string \<Rightarrow> int" where
  "nextId d t =
     (if t = ''reminders'' then nextId_reminders d
      else if t = ''sent_reminders'' then nextId_sentReminders d
      else if t = ''conversations'' then nextId_conversations d
      else 0)"

definition knownTable :: "string \<Rightarrow> bool" where
  "knownTable t = (t = ''reminders'' \<or> t = ''sent_reminders'' \<or> t = ''conversations'')"

text \<open>The state after \<open>reset()\<close>, and the state the constructor leaves: one seeded reminder
  that expires seven days after construction.\<close>

definition resetDb :: db where
  "resetDb = \<lparr>reminders = [], sentReminders = [], conversations = [],
              nextId_reminders = 1, nextId_sentReminders = 1, nextId_conversations = 1\<rparr>"

definition seedTestData :: "js \<Rightarrow> int \<Rightarrow> db \<Rightarrow> db" where
  "seedTestData J now d =
     d\<lparr>reminders := mapSet 1
          [''id'' \<mapsto> VNum 1, ''domain'' \<mapsto> VStr ''test.eth'', ''wallet_address'' \<mapsto> VStr ''0xtest123'',
           ''expiry_date'' \<mapsto> VStr (toISOString J (now + 7 * 24 * 60 * 60 * 1000)),
           ''reminders_sent'' \<mapsto> VStr ''[]'', ''created_at'' \<mapsto> VStr (toISOString J now)]
          (reminders d),
       nextId_reminders := 2\<rparr>"

text \<open>A history of store operations, each with the clock reading it sees, and the
  identities that the inserts into table \<open>t\<close> hand out along it, in order.\<close>

datatype db_op =
  Insert string insert_data | Update string row filters | Delete string filters

fun applyOp :: "js \<Rightarrow> int \<Rightarrow> db_op \<Rightarrow> db \<Rightarrow> db" where
  "applyOp J now (Insert t data) d = snd (executeInsert J now d t data)"
| "applyOp J now (Update t patch fs) d = snd (executeUpdate J now d t patch fs)"
| "applyOp J now (Delete t fs) d = snd (executeDelete d t fs)"

fun assignedId :: "js \<Rightarrow> int \<Rightarrow> string \<Rightarrow> db_op \<Rightarrow> db \<Rightarrow> int list" where
  "assignedId J now t (Insert t' data) d =
     (if t' = t then
        (case fst (executeInsert J now d t' data) of
           Inr r \<Rightarrow> (case getv r ''id'' of VNum i \<Rightarrow> [i] | _ \<Rightarrow> [])
         | Inl e \<Rightarrow> [])
      else [])"
| "assignedId J now t (Update t' patch fs) d = []"
| "assignedId J now t (Delete t' fs) d = []"

fun assignedIds :: "js \<Rightarrow> string \<Rightarrow> (int \<times> db_op) list \<Rightarrow> db \<Rightarrow> int list" where
  "assignedIds J t [] d = []"
| "assignedIds J t ((now, op) # ops) d =
     assignedId J now t op d @ assignedIds J t ops (applyOp J now op d)"



section \<open>The delivery gateway (MockXMTPService)\<close>

text \<open>
  Of a sent message the recipient, the text and the conversation identifier are kept; its
  generated identifier and its timestamp are read by nothing in the reminder engine, and
  neither are the per-conversation copies of the messages.
\<close>

record message =
  recipient :: val
  content :: string
  conversation :: string

record xmtp =
  isConnected :: bool
  sentMessages :: "message list"

definition botAddress :: string where
  "botAddress = ''0xbot123''"

text \<open>
  \<open>address.toLowerCase()\<close> on a value read off a row: a value that is not a string has
  no such method (or, for \<open>undefined\<close> and \<open>null\<close>, no properties at all), and the call
  throws a \<open>TypeError\<close>. Strings are kept as UTF-8 bytes; the letters \<open>A\<close> to \<open>Z\<close> are
  lowered.
\<close>

definition lowerChar :: "char \<Rightarrow> char" where
  "lowerChar c = (if CHR ''A'' \<le> c \<and> c \<le> CHR ''Z'' then char_of (of_char c + (32 :: nat)) else c)"

fun toLowerCase :: "val \<Rightarrow> js_error + string" where
  "toLowerCase (VStr s) = Inr (map lowerChar s)"
| "toLowerCase VUndefined = Inl (TypeError ''Cannot read properties of undefined'')"
| "toLowerCase VNull = Inl (TypeError ''Cannot read properties of null'')"
| "toLowerCase (VNum n) = Inl (TypeError ''toLowerCase is not a function'')"

text \<open>\<open>getConversationId\<close>: both addresses lowered, then sorted.\<close>

definition getConversationId :: "val \<Rightarrow> val \<Rightarrow> js_error + string" where
  "getConversationId address1 address2 =
     (case toLowerCase address1 of
        Inl e \<Rightarrow> Inl e
      | Inr a1 \<Rightarrow>
          (case toLowerCase address2 of
             Inl e \<Rightarrow> Inl e
           | Inr a2 \<Rightarrow> Inr (''conv_'' @ min a1 a2 @ ''_'' @ max a1 a2)))"

text \<open>
  \<open>sendMessage\<close> up to its \<open>await\<close>. The message object is built first, and building it
  calls \<open>getConversationId\<close> on the recipient as it was passed in, so a recipient that
  is not a string throws before anything is stored. Otherwise the message is pushed onto
  \<open>sentMessages\<close>; the function then waits 50 ms on a timer and returns the message. The
  result here is the message and the gateway as they are when the wait begins.
\<close>

definition sendMessage :: "xmtp \<Rightarrow> val \<Rightarrow> string \<Rightarrow> js_error + message \<times> xmtp" where
  "sendMessage x recipientAddress text =
     (if \<not> isConnected x then Inl (Error ''XMTP service not connected'')
      else (case getConversationId (VStr botAddress) recipientAddress of
              Inl e \<Rightarrow> Inl e
            | Inr conversationId \<Rightarrow>
                (let m = \<lparr>recipient = recipientAddress, content = text, conversation = conversationId\<rparr>
                 in Inr (m, x\<lparr>sentMessages := sentMessages x @ [m]\<rparr>))))"

section \<open>The reminder engine (ReminderService)\<close>

record config =
  enableXMTP :: bool
  reminderIntervals :: "int list"

text \<open>The constructor: \<open>enableXMTP\<close> is on unless \<open>false\<close> is given, the intervals
  default to 30, 7 and 1 days.\<close>

definition newReminderService :: "bool option \<Rightarrow> int list option \<Rightarrow> config" where
  "newReminderService xmtpOpt intervalsOpt =
     \<lparr>enableXMTP = (xmtpOpt \<noteq> Some False),
      reminderIntervals = (case intervalsOpt of None \<Rightarrow> [30, 7, 1] | Some l \<Rightarrow> l)\<rparr>"

record world =
  store :: db
  gateway :: xmtp

definition sq :: string where
  "sq = [CHR 0x27]"

text \<open>
  \<open>createReminderMessage\<close>, with the five templates as the source has them. Each begins
  with a pictograph, kept as the bytes it has in the source file; the double quotes around
  the name are \<open>CHR 0x22\<close> and the apostrophe is \<open>CHR 0x27\<close>.
\<close>

definition createReminderMessage :: "string \<Rightarrow> int \<Rightarrow> string" where
  "createReminderMessage domain daysUntilExpiry =
     (if daysUntilExpiry \<le> 0 then
        [CHR 0xC3, CHR 0xB0, CHR 0xC5, CHR 0xB8, CHR 0xC5, CHR 0xA1, CHR 0xC2, CHR 0xA8] @
        '' URGENT: Your ENS domain '' @ [CHR 0x22] @ domain @ [CHR 0x22] @
        '' has expired! You may still be able to renew it during the grace period. Act quickly to avoid losing your domain.''
      else if daysUntilExpiry = 1 then
        [CHR 0xC3, CHR 0xB0, CHR 0xC5, CHR 0xB8, CHR 0xC5, CHR 0xA1, CHR 0xC2, CHR 0xA8] @
        '' FINAL NOTICE: Your ENS domain '' @ [CHR 0x22] @ domain @ [CHR 0x22] @
        '' expires TOMORROW! Please renew it immediately to avoid losing your domain.''
      else if daysUntilExpiry \<le> 7 then
        [CHR 0xC3, CHR 0xA2, CHR 0xC5, CHR 0xA1, CHR 0xC2, CHR 0xA1] @
        '' URGENT: Your ENS domain '' @ [CHR 0x22] @ domain @ [CHR 0x22] @ '' expires in '' @
        numberToString daysUntilExpiry @ '' days! Please renew it soon to avoid losing your domain.''
      else if daysUntilExpiry \<le> 30 then
        [CHR 0xC3, CHR 0xA2, CHR 0xC2, CHR 0xB0] @
        '' Reminder: Your ENS domain '' @ [CHR 0x22] @ domain @ [CHR 0x22] @ '' expires in '' @
        numberToString daysUntilExpiry @ '' days. Consider renewing it to ensure you don'' @ [CHR 0x27] @
        ''t lose your domain.''
      else
        [CHR 0xC3, CHR 0xB0, CHR 0xC5, CHR 0xB8, CHR 0xE2, CHR 0x80, CHR 0x9C, CHR 0xE2, CHR 0x80, CHR 0xA6] @
        '' Reminder: Your ENS domain '' @ [CHR 0x22] @ domain @ [CHR 0x22] @ '' expires in '' @
        numberToString daysUntilExpiry @ '' days. You have plenty of time, but it'' @ [CHR 0x27] @
        ''s good to keep track!'')"

text \<open>The text of the post-expiry notice, written out a second time in the grace-period
  branch of \<open>processReminders\<close>.\<close>

definition gracePeriodMessage :: "string \<Rightarrow> string" where
  "gracePeriodMessage domain =
     [CHR 0xC3, CHR 0xB0, CHR 0xC5, CHR 0xB8, CHR 0xC5, CHR 0xA1, CHR 0xC2, CHR 0xA8] @
     '' URGENT: Your ENS domain '' @ [CHR 0x22] @ domain @ [CHR 0x22] @
     '' has expired! You may still be able to renew it during the grace period. Act quickly to avoid losing your domain.''"

text \<open>A property read off a row and interpolated into a template.\<close>

fun valToString :: "val \<Rightarrow> string" where
  "valToString VUndefined = ''undefined''"
| "valToString VNull = ''null''"
| "valToString (VNum n) = numberToString n"
| "valToString (VStr s) = s"

text \<open>\<open>recordSentReminder\<close> inserts the delivery record; the insert into this table
  cannot fail. The clock it reads for \<open>sent_at\<close> is taken to show the instant of the pass.\<close>

definition recordSentReminder :: "js \<Rightarrow> int \<Rightarrow> db \<Rightarrow> val \<Rightarrow> string \<Rightarrow> db" where
  "recordSentReminder J now d reminderId reminderType =
     snd (executeInsert J now d ''sent_reminders''
            (One [''reminder_id'' \<mapsto> reminderId,
                  ''sent_at'' \<mapsto> VStr (toISOString J now),
                  ''reminder_type'' \<mapsto> VStr reminderType,
                  ''message_id'' \<mapsto> VUndefined]))"

definition hasReminderBeenSent :: "js \<Rightarrow> db \<Rightarrow> val \<Rightarrow> string \<Rightarrow> bool" where
  "hasReminderBeenSent J d reminderId reminderType =
     (case createSelectQuery J d ''sent_reminders'' [Eq ''reminder_id'' reminderId] of
        Inr (Inr data) \<Rightarrow> list_ex (\<lambda>record. getv record ''reminder_type'' = VStr reminderType) data
      | Inr (Inl e) \<Rightarrow> False
      | Inl e \<Rightarrow> False)"

text \<open>\<open>Math.ceil((expiry - now) / (1000 * 60 * 60 * 24))\<close>; \<open>None\<close> is \<open>NaN\<close>, the result
  for a row whose expiry date does not parse. The source divides floating-point numbers;
  for two instants less than \<open>2^53\<close> milliseconds apart the difference is exact and the
  quotient rounds to no integer it does not equal, so its ceiling is the integer ceiling
  written here.\<close>

definition oneDay :: int where
  "oneDay = 1000 * 60 * 60 * 24"

definition daysUntilExpiry :: "js \<Rightarrow> int \<Rightarrow> row \<Rightarrow> int option" where
  "daysUntilExpiry J now reminder =
     (case dateParse J (getv reminder ''expiry_date'') of
        None \<Rightarrow> None
      | Some expiry \<Rightarrow> Some (- ((- (expiry - now)) div oneDay)))"

definition reminderTypeOf :: "int \<Rightarrow> string" where
  "reminderTypeOf interval = ''day_'' @ numberToString interval"

subsection \<open>One pass, from one \<open>await\<close> to the next\<close>

text \<open>
  The loop of \<open>processReminders\<close> runs inside an \<open>async\<close> callback and gives up control
  at every \<open>await\<close>; whatever else is ready to run, another pass for one, runs in
  between. A pass is therefore modelled by the places where it can be suspended and by
  what it does from one of them to the next.

  The rows and the instant \<open>now\<close> are read once, before the loop. Which bodies of the loop
  are entered follows from them alone: for each row, in the order of the configured
  intervals, the body of every interval that equals the days remaining, and then the
  grace-period branch when no days remain. (With \<open>NaN\<close> days both comparisons are false.)
  These are the tasks of the pass, in the order the loop reaches them.
\<close>

datatype task = Interval row int | GracePeriod row

fun reminderOf :: "task \<Rightarrow> row" where
  "reminderOf (Interval reminder interval) = reminder"
| "reminderOf (GracePeriod reminder) = reminder"

text \<open>The tag a task looks up and records: the grace-period branch uses \<open>day_1\<close>.\<close>

fun taskType :: "task \<Rightarrow> string" where
  "taskType (Interval reminder interval) = reminderTypeOf interval"
| "taskType (GracePeriod reminder) = ''day_1''"

definition dueTasks :: "js \<Rightarrow> config \<Rightarrow> int \<Rightarrow> row \<Rightarrow> task list" where
  "dueTasks J cfg now reminder =
     (let days = daysUntilExpiry J now reminder in
      map (Interval reminder) (filter (\<lambda>interval. days = Some interval) (reminderIntervals cfg)) @
      (case days of None \<Rightarrow> [] | Some n \<Rightarrow> if n \<le> 0 then [GracePeriod reminder] else []))"

text \<open>
  Where a pass can be: \<open>Checked b\<close>, at \<open>await hasReminderBeenSent\<close>, the query having
  read \<open>b\<close>; \<open>Delay\<close>, inside \<open>sendMessage\<close>, the message pushed and the 50 ms timer
  running; \<open>Sent ok\<close>, at the \<open>await\<close> of the send, which has reported \<open>ok\<close>;
  \<open>Inserting\<close>, inside \<open>recordSentReminder\<close>, at the \<open>await\<close> of the insert, which the
  store executes when the pass is resumed; \<open>Inserted\<close>, at \<open>await recordSentReminder\<close>,
  the record written. \<open>Completed\<close> is the end of the loop and \<open>Threw e\<close> an exception that
  left it: the promise of the callback is rejected and nobody awaits it.
\<close>

datatype stage = Checked bool | Delay | Sent bool | Inserting | Inserted | Completed | Threw js_error

text \<open>\<open>todo\<close> holds the tasks not yet finished, the current one first; \<open>instant\<close> is
  the \<open>now\<close> of the pass.\<close>

record pass =
  instant :: int
  todo :: "task list"
  stage :: stage
  processedCount :: nat

text \<open>
  \<open>sendReminder\<close> up to the point where its caller is suspended: with delivery disabled
  it has reported success at once; with a gateway that throws, the exception is caught and
  it has reported \<open>false\<close>; otherwise it waits inside \<open>sendMessage\<close> and will report
  success.
\<close>

definition sendReminder :: "config \<Rightarrow> xmtp \<Rightarrow> val \<Rightarrow> val \<Rightarrow> int \<Rightarrow> stage \<times> xmtp" where
  "sendReminder cfg x walletAddress domain days =
     (if \<not> enableXMTP cfg then (Sent True, x)
      else (case sendMessage x walletAddress (createReminderMessage (valToString domain) days) of
              Inr (m, x') \<Rightarrow> (Delay, x')
            | Inl e \<Rightarrow> (Sent False, x)))"

text \<open>Entering the next task: the loop runs on to the call of \<open>hasReminderBeenSent\<close>,
  which reads the store at once, and is suspended at its \<open>await\<close>.\<close>

definition nextTask :: "js \<Rightarrow> pass \<Rightarrow> world \<Rightarrow> pass" where
  "nextTask J p w =
     (case todo p of
        [] \<Rightarrow> p\<lparr>stage := Completed\<rparr>
      | t # ts \<Rightarrow>
          p\<lparr>stage := Checked (hasReminderBeenSent J (store w) (getv (reminderOf t) ''id'') (taskType t))\<rparr>)"

text \<open>
  Resuming a pass that is suspended in the task \<open>t\<close>, up to its next suspension. The
  grace-period branch calls the gateway directly, outside \<open>sendReminder\<close>: nothing looks
  at \<open>enableXMTP\<close> and nothing catches an exception there.
\<close>

definition resumeTask :: "js \<Rightarrow> config \<Rightarrow> task \<Rightarrow> task list \<Rightarrow> pass \<Rightarrow> world \<Rightarrow> pass \<times> world" where
  "resumeTask J cfg t ts p w =
     (case stage p of
        Checked alreadySent \<Rightarrow>
          if alreadySent then (nextTask J (p\<lparr>todo := ts\<rparr>) w, w)
          else (case t of
                  Interval reminder interval \<Rightarrow>
                    (let (s, x') = sendReminder cfg (gateway w) (getv reminder ''wallet_address'')
                                     (getv reminder ''domain'') interval
                     in (p\<lparr>stage := s\<rparr>, w\<lparr>gateway := x'\<rparr>))
                | GracePeriod reminder \<Rightarrow>
                    (case sendMessage (gateway w) (getv reminder ''wallet_address'')
                            (gracePeriodMessage (valToString (getv reminder ''domain''))) of
                       Inl e \<Rightarrow> (p\<lparr>stage := Threw e\<rparr>, w)
                     | Inr (m, x') \<Rightarrow> (p\<lparr>stage := Delay\<rparr>, w\<lparr>gateway := x'\<rparr>)))
      | Delay \<Rightarrow> (p\<lparr>stage := Sent True\<rparr>, w)
      | Sent success \<Rightarrow>
          if success then (p\<lparr>stage := Inserting\<rparr>, w) else (nextTask J (p\<lparr>todo := ts\<rparr>) w, w)
      | Inserting \<Rightarrow>
          (p\<lparr>stage := Inserted\<rparr>,
           w\<lparr>store := recordSentReminder J (instant p) (store w) (getv (reminderOf t) ''id'') (taskType t)\<rparr>)
      | Inserted \<Rightarrow> (nextTask J (p\<lparr>todo := ts, processedCount := processedCount p + 1\<rparr>) w, w)
      | Completed \<Rightarrow> (p, w)
      | Threw e \<Rightarrow> (p, w))"

definition settled :: "pass \<Rightarrow> bool" where
  "settled p = (case stage p of Completed \<Rightarrow> True | Threw e \<Rightarrow> True | _ \<Rightarrow> False)"

definition resume :: "js \<Rightarrow> config \<Rightarrow> pass \<Rightarrow> world \<Rightarrow> pass \<times> world" where
  "resume J cfg p w =
     (if settled p then (p, w)
      else (case todo p of
              [] \<Rightarrow> (p\<lparr>stage := Completed\<rparr>, w)
            | t # ts \<Rightarrow> resumeTask J cfg t ts p w))"

text \<open>
  The call of \<open>processReminders\<close> at the instant \<open>now\<close>. The \<open>then\<close> of the store's query
  runs its callback at once, so the call reads the rows and enters the first task, and
  the promise it returns is settled although the loop has only begun: \<open>result.then(...)\<close>
  is neither awaited nor returned.
\<close>

definition startPass :: "js \<Rightarrow> config \<Rightarrow> int \<Rightarrow> world \<Rightarrow> pass" where
  "startPass J cfg now w =
     (case createSelectQuery J (store w) ''reminders'' [] of
        Inr (Inr data) \<Rightarrow>
          nextTask J \<lparr>instant = now, todo = concat (map (dueTasks J cfg now) data),
                      stage = Completed, processedCount = 0\<rparr> w
      | Inr (Inl e) \<Rightarrow> \<lparr>instant = now, todo = [], stage = Completed, processedCount = 0\<rparr>
      | Inl e \<Rightarrow> \<lparr>instant = now, todo = [], stage = Completed, processedCount = 0\<rparr>)"

text \<open>How far a pass is from its end: every resumption brings it closer.\<close>

fun rank :: "stage \<Rightarrow> nat" where
  "rank (Checked b) = 5"
| "rank Delay = 4"
| "rank (Sent b) = 3"
| "rank Inserting = 2"
| "rank Inserted = 1"
| "rank Completed = 0"
| "rank (Threw e) = 0"

definition weight :: "pass \<Rightarrow> nat" where
  "weight p = 6 * length (todo p) + rank (stage p)"

text \<open>
  A pass that runs with nothing else in between: it is resumed until it has settled.
\<close>

function finishPass :: "js \<Rightarrow> config \<Rightarrow> pass \<Rightarrow> world \<Rightarrow> pass \<times> world" where
  "finishPass J cfg p w =
     (if settled p then (p, w)
      else (case resume J cfg p w of (p', w') \<Rightarrow> finishPass J cfg p' w'))"
  by pat_completeness auto
termination
  by (relation "measure (\<lambda>(J, cfg, p, w). weight p)")
     (auto simp: weight_def resume_def resumeTask_def nextTask_def settled_def sendReminder_def Let_def
           split: list.splits stage.splits if_splits task.splits sum.splits prod.splits)

declare finishPass.simps [simp del]

text \<open>
  \<open>processReminders\<close> for a pass that no other pass overlaps: the call and everything
  the callback does afterwards, with the exception that left the loop, if any, the two
  services as the pass leaves them, and \<open>processedCount\<close>.
\<close>

definition processReminders :: "js \<Rightarrow> config \<Rightarrow> int \<Rightarrow> world \<Rightarrow> js_error option \<times> world \<times> nat" where
  "processReminders J cfg now w =
     (case finishPass J cfg (startPass J cfg now w) w of
        (p, w') \<Rightarrow> ((case stage p of Threw e \<Rightarrow> Some e | _ \<Rightarrow> None), w', processedCount p))"

text \<open>Passes that are each over before the next is called: the caller has waited for
  the gateway's delays in between, which awaiting \<open>processReminders\<close> does not do.\<close>

fun passesInTurn :: "js \<Rightarrow> config \<Rightarrow> int list \<Rightarrow> world \<Rightarrow> world" where
  "passesInTurn J cfg [] w = w"
| "passesInTurn J cfg (now # nows) w = passesInTurn J cfg nows (fst (snd (processReminders J cfg now w)))"

subsection \<open>Several passes\<close>

text \<open>
  What a caller of the service does: \<open>Call now\<close> is \<open>await processReminders()\<close> (through
  \<open>triggerReminderCheck\<close> or the callback of a scheduled job) at the instant \<open>now\<close>;
  \<open>Idle\<close> is the caller waiting, for as long as it takes every pass begun so far to
  settle, before it goes on.
\<close>

datatype action = Call int | Idle

record system =
  services :: world
  passes :: "pass list"
  script :: "action list"

text \<open>
  The event loop. A pass suspended at an \<open>await\<close> of a promise that is already settled is
  ready, and so is a caller whose next action is a call, because the promise of the previous
  call settled at once. A timer fires only when nothing is ready. The order in which the
  ready ones run, and the order of the timers, is left open: \<open>enabled\<close> lists every move
  that may come next. \<open>Step i\<close> resumes the pass number \<open>i\<close>, \<open>Caller\<close> lets the caller
  take its next action.
\<close>

datatype move = Caller | Step nat

definition ready :: "pass \<Rightarrow> bool" where
  "ready p = (case stage p of Checked b \<Rightarrow> True | Sent b \<Rightarrow> True | Inserting \<Rightarrow> True
                | Inserted \<Rightarrow> True | _ \<Rightarrow> False)"

definition delayed :: "pass \<Rightarrow> bool" where
  "delayed p = (case stage p of Delay \<Rightarrow> True | _ \<Rightarrow> False)"

definition enabled :: "system \<Rightarrow> move list" where
  "enabled s =
     (let atOnce = (case script s of Call now # rest \<Rightarrow> [Caller] | _ \<Rightarrow> []) @
                   map Step (filter (\<lambda>i. ready (passes s ! i)) [0 ..< length (passes s)])
      in if atOnce \<noteq> [] then atOnce
         else map Step (filter (\<lambda>i. delayed (passes s ! i)) [0 ..< length (passes s)]) @
              (case script s of
                 Idle # rest \<Rightarrow> if list_all settled (passes s) then [Caller] else []
               | _ \<Rightarrow> []))"

fun fire :: "js \<Rightarrow> config \<Rightarrow> move \<Rightarrow> system \<Rightarrow> system" where
  "fire J cfg Caller s =
     (case script s of
        [] \<Rightarrow> s
      | Call now # rest \<Rightarrow> s\<lparr>passes := passes s @ [startPass J cfg now (services s)], script := rest\<rparr>
      | Idle # rest \<Rightarrow> s\<lparr>script := rest\<rparr>)"
| "fire J cfg (Step i) s =
     (case resume J cfg (passes s ! i) (services s) of
        (p, w) \<Rightarrow> s\<lparr>services := w, passes := (passes s)[i := p]\<rparr>)"

text \<open>A run of the system along a list of moves; \<open>None\<close> when a move is not enabled where
  it stands.\<close>

fun runMoves :: "js \<Rightarrow> config \<Rightarrow> move list \<Rightarrow> system \<Rightarrow> system option" where
  "runMoves J cfg [] s = Some s"
| "runMoves J cfg (m # ms) s = (if m \<in> set (enabled s) then runMoves J cfg ms (fire J cfg m s) else None)"

text \<open>
  Every state in which the system can come to rest (no move enabled), found by trying all
  enabled moves to the depth \<open>n\<close>; \<open>None\<close> when some run is longer than that.
\<close>

fun joinAll :: "'a list option list \<Rightarrow> 'a list option" where
  "joinAll [] = Some []"
| "joinAll (None # rest) = None"
| "joinAll (Some xs # rest) = (case joinAll rest of None \<Rightarrow> None | Some ys \<Rightarrow> Some (xs @ ys))"

fun finals :: "js \<Rightarrow> config \<Rightarrow> nat \<Rightarrow> system \<Rightarrow> system list option" where
  "finals J cfg 0 s = (if enabled s = [] then Some [s] else None)"
| "finals J cfg (Suc n) s =
     (if enabled s = [] then Some [s]
      else joinAll (map (\<lambda>m. finals J cfg n (fire J cfg m s)) (enabled s)))"

fun everyFinal :: "(system \<Rightarrow> bool) \<Rightarrow> system list option \<Rightarrow> bool" where
  "everyFinal P None = False"
| "everyFinal P (Some ss) = (ss \<noteq> [] \<and> list_all P ss)"

definition awaited :: "int list \<Rightarrow> world \<Rightarrow> system" where
  "awaited nows w = \<lparr>services = w, passes = [], script = map Call nows\<rparr>"

text \<open>The number of delivery records for a reminder identity and an interval tag.\<close>

definition isSentRecord :: "val \<Rightarrow> string \<Rightarrow> row \<Rightarrow> bool" where
  "isSentRecord reminderId reminderType record =
     (getv record ''reminder_id'' = reminderId \<and> getv record ''reminder_type'' = VStr reminderType)"

definition countSent :: "db \<Rightarrow> val \<Rightarrow> string \<Rightarrow> nat" where
  "countSent d reminderId reminderType =
     length (filter (isSentRecord reminderId reminderType) (map snd (sentReminders d)))"

text \<open>The script of a caller that lets every pass finish before it calls the next.\<close>

definition inTurn :: "int list \<Rightarrow> action list" where
  "inTurn nows = concat (map (\<lambda>now. [Call now, Idle]) nows)"

section \<open>The scheduler (MockCronService)\<close>

text \<open>
  A job is an object that the map of jobs, a running execution and the timer of
  \<open>scheduleImmediate\<close> all refer to, and \<open>schedule\<close> under a known name puts a fresh
  object into the map while an execution may still hold the old one. Job objects
  therefore live in a heap, a list indexed by address. The callback of a job is code of
  the caller: the model records when it is invoked and lets it settle later, either way.
\<close>

record CronJob =
  job_id :: string
  schedule :: string
  lastRun :: "int option"
  nextRun :: "int option"
  isRunning :: bool
  runCount :: nat

text \<open>
  \<open>pending\<close> lists the executions that are in flight: the calls of \<open>executeJob\<close> that have
  invoked the callback and wait at \<open>await job.callback()\<close>, each by the address of its job.
\<close>

record cron =
  objects :: "CronJob list"
  jobs :: "(string \<times> nat) list"
  isActive :: bool
  pending :: "nat list"

definition newCron :: cron where
  "newCron = \<lparr>objects = [], jobs = [], isActive = False, pending = []\<rparr>"

definition calculateNextRun :: "string \<Rightarrow> int \<Rightarrow> int" where
  "calculateNextRun cronExpression now =
     (if includesStr cronExpression ''0 9 * * *'' then now + 10000
      else if includesStr cronExpression ''* * * * *'' then now + 5000
      else now + 30000)"

definition scheduleJob :: "int \<Rightarrow> string \<Rightarrow> string \<Rightarrow> cron \<Rightarrow> cron" where
  "scheduleJob now ident cronExpression s =
     (let job = \<lparr>job_id = ident, schedule = cronExpression, lastRun = None,
                 nextRun = Some (calculateNextRun cronExpression now),
                 isRunning = False, runCount = 0\<rparr>
      in s\<lparr>objects := objects s @ [job], jobs := mapSet ident (length (objects s)) (jobs s)\<rparr>)"

text \<open>\<open>executeJob\<close> up to the \<open>await\<close>: the guard, the bookkeeping and the invocation of
  the callback.\<close>

definition executeJob :: "int \<Rightarrow> nat \<Rightarrow> cron \<Rightarrow> cron" where
  "executeJob now a s =
     (if length (objects s) \<le> a then s
      else (let job = objects s ! a in
            if isRunning job then s
            else s\<lparr>objects := (objects s)[a := job\<lparr>isRunning := True, lastRun := Some now,
                                                  runCount := runCount job + 1\<rparr>],
                   pending := pending s @ [a]\<rparr>))"

datatype callback_result = Resolved | Rejected js_error

text \<open>\<open>executeJob\<close> from the \<open>await\<close> on, once the callback has settled: the \<open>try\<close> and
  the \<open>catch\<close> only log, the \<open>finally\<close> block runs after both.\<close>

definition settleJob :: "int \<Rightarrow> nat \<Rightarrow> callback_result \<Rightarrow> cron \<Rightarrow> cron" where
  "settleJob now a res s =
     (if a \<in> set (pending s) \<and> a < length (objects s) then
        (let job = objects s ! a;
             finished = s\<lparr>objects := (objects s)[a := job\<lparr>isRunning := False,
                                nextRun := Some (calculateNextRun (schedule job) now)\<rparr>],
                          pending := remove1 a (pending s)\<rparr>
         in case res of Resolved \<Rightarrow> finished | Rejected e \<Rightarrow> finished)
      else s)"

definition triggerJob :: "int \<Rightarrow> string \<Rightarrow> cron \<Rightarrow> js_error + cron" where
  "triggerJob now jobId s =
     (case map_of (jobs s) jobId of
        None \<Rightarrow> Inl (Error (''Job '' @ sq @ jobId @ sq @ '' not found''))
      | Some a \<Rightarrow> if isRunning (objects s ! a) then Inr s else Inr (executeJob now a s))"

definition triggerAllJobs :: "int \<Rightarrow> cron \<Rightarrow> cron" where
  "triggerAllJobs now s =
     fold (executeJob now) (filter (\<lambda>a. \<not> isRunning (objects s ! a)) (map snd (jobs s))) s"

definition isDue :: "int \<Rightarrow> CronJob \<Rightarrow> bool" where
  "isDue now job = (\<not> isRunning job \<and> (case nextRun job of None \<Rightarrow> False | Some t \<Rightarrow> t \<le> now))"

definition checkAndRunJobs :: "int \<Rightarrow> cron \<Rightarrow> cron" where
  "checkAndRunJobs now s =
     (if \<not> isActive s then s
      else fold (\<lambda>a s'. if isDue now (objects s' ! a) then executeJob now a s' else s')
             (map snd (jobs s)) s)"

definition removeJob :: "string \<Rightarrow> cron \<Rightarrow> cron" where
  "removeJob jobId s = s\<lparr>jobs := filter (\<lambda>e. fst e \<noteq> jobId) (jobs s)\<rparr>"

text \<open>The timer that \<open>scheduleImmediate\<close> sets, when it fires: it runs the job object it
  was created with, provided the name is still scheduled.\<close>

definition immediateTimeout :: "int \<Rightarrow> string \<Rightarrow> nat \<Rightarrow> cron \<Rightarrow> cron" where
  "immediateTimeout now ident a s =
     (if ident \<in> fst ` set (jobs s) then executeJob now a s else s)"

text \<open>
  What can happen to the scheduler, one event at a time. \<open>Settle a res\<close> is the callback
  of the execution at \<open>a\<close> settling; \<open>Timeout ident a\<close> is the timer of a
  \<open>scheduleImmediate\<close> firing; \<open>Tick\<close> is one round of the polling loop. A manual trigger
  of an unknown name throws and changes nothing.
\<close>

datatype event =
  Schedule string string | Timeout string nat | Start | Stop | Tick
  | TriggerJob string | TriggerAllJobs | Settle nat callback_result | RemoveJob string | Reset

fun step :: "int \<Rightarrow> event \<Rightarrow> cron \<Rightarrow> cron" where
  "step now (Schedule ident e) s = scheduleJob now ident e s"
| "step now (Timeout ident a) s = immediateTimeout now ident a s"
| "step now Start s = s\<lparr>isActive := True\<rparr>"
| "step now Stop s = s\<lparr>isActive := False\<rparr>"
| "step now Tick s = checkAndRunJobs now s"
| "step now (TriggerJob ident) s = (case triggerJob now ident s of Inl e \<Rightarrow> s | Inr s' \<Rightarrow> s')"
| "step now TriggerAllJobs s = triggerAllJobs now s"
| "step now (Settle a res) s = settleJob now a res s"
| "step now (RemoveJob ident) s = removeJob ident s"
| "step now Reset s = s\<lparr>isActive := False, jobs := []\<rparr>"

fun run :: "(int \<times> event) list \<Rightarrow> cron \<Rightarrow> cron" where
  "run [] s = s"
| "run ((now, e) # es) s = run es (step now e s)"

section \<open>Notions used to state the properties\<close>

text \<open>
  A store is well formed when each table has distinct keys, as a \<open>Map\<close> has, and every
  key lies below the identity counter of the table. The constructor and \<open>reset\<close>
  establish this and every operation keeps it.
\<close>

definition wfTable :: "int \<Rightarrow> table \<Rightarrow> bool" where
  "wfTable next t = (distinct (map fst t) \<and> list_all (\<lambda>e. fst e < next) t)"

definition wfDb :: "db \<Rightarrow> bool" where
  "wfDb d =
     (wfTable (nextId_reminders d) (reminders d) \<and>
      wfTable (nextId_sentReminders d) (sentReminders d) \<and>
      wfTable (nextId_conversations d) (conversations d))"

text \<open>How many of the entries \<open>new\<close> are delivery records for the given pair.\<close>

definition newOf :: "val \<Rightarrow> string \<Rightarrow> table \<Rightarrow> nat" where
  "newOf rid tag new = length (filter (isSentRecord rid tag) (map snd new))"

text \<open>
  \<open>extends d d'\<close>: the store \<open>d'\<close> has the reminders of \<open>d\<close>, and its delivery records
  are those of \<open>d\<close> followed by new ones, at most one for each pair and none for a pair
  that \<open>d\<close> already records.
\<close>

definition extends :: "db \<Rightarrow> db \<Rightarrow> bool" where
  "extends d d' =
     (wfDb d' \<and> reminders d' = reminders d \<and>
      (\<exists>new. sentReminders d' = sentReminders d @ new \<and>
         (\<forall>rid tag. newOf rid tag new \<le> 1 \<and> (0 < countSent d rid tag \<longrightarrow> newOf rid tag new = 0))))"


text \<open>
  A pass agrees with the store when what it holds about the delivery record of its current
  task is what the store says: the answer of the check it is suspended at, and, once it
  has gone on to send, that there is no record yet. A pass that nothing else overlaps
  agrees with the store all the way.
\<close>

definition agrees :: "js \<Rightarrow> pass \<Rightarrow> world \<Rightarrow> bool" where
  "agrees J p w =
     (case todo p of
        [] \<Rightarrow> True
      | t # ts \<Rightarrow>
          (case stage p of
             Checked b \<Rightarrow> b = hasReminderBeenSent J (store w) (getv (reminderOf t) ''id'') (taskType t)
           | Delay \<Rightarrow> \<not> hasReminderBeenSent J (store w) (getv (reminderOf t) ''id'') (taskType t)
           | Sent ok \<Rightarrow> \<not> hasReminderBeenSent J (store w) (getv (reminderOf t) ''id'') (taskType t)
           | Inserting \<Rightarrow> \<not> hasReminderBeenSent J (store w) (getv (reminderOf t) ''id'') (taskType t)
           | _ \<Rightarrow> True))"

text \<open>Concrete inputs for the examples: builtins that read a number as an instant, the
  default configuration, and a store with one reminder that expires at day 7.\<close>

definition exJs :: js where
  "exJs = \<lparr>toNumber = (\<lambda>s. None),
           dateParse = (\<lambda>v. case v of VNum n \<Rightarrow> Some n | _ \<Rightarrow> None),
           toISOString = (\<lambda>t. ''t'')\<rparr>"

definition exRow :: "int \<Rightarrow> string \<Rightarrow> int \<Rightarrow> row" where
  "exRow i name expiry =
     [''id'' \<mapsto> VNum i, ''domain'' \<mapsto> VStr name, ''wallet_address'' \<mapsto> VStr ''0xa'',
      ''expiry_date'' \<mapsto> VNum expiry]"

definition exWorld :: world where
  "exWorld =
     \<lparr>store = resetDb\<lparr>reminders := [(1, exRow 1 ''a.eth'' (7 * oneDay))], nextId_reminders := 2\<rparr>,
      gateway = \<lparr>isConnected = True, sentMessages = []\<rparr>\<rparr>"



definition exDisabled :: world where
  "exDisabled =
     \<lparr>store = resetDb\<lparr>reminders := [(1, exRow 1 ''old.eth'' (- oneDay)), (2, exRow 2 ''b.eth'' (7 * oneDay))],
                      nextId_reminders := 3\<rparr>,
      gateway = \<lparr>isConnected = False, sentMessages = []\<rparr>\<rparr>"





text \<open>What is looked at in a state the system comes to rest in: how many delivery records
  the pair \<open>(rid, tag)\<close> has and what the gateway has sent.\<close>

definition delivered :: "val \<Rightarrow> string \<Rightarrow> nat \<Rightarrow> string list \<Rightarrow> system \<Rightarrow> bool" where
  "delivered rid tag n texts s =
     (countSent (store (services s)) rid tag = n \<and>
      map content (sentMessages (gateway (services s))) = texts \<and>
      list_all settled (passes s))"

text \<open>
  A column name is plain when none of the operator suffixes that \<open>executeSelect\<close> looks
  for occurs in it. The columns that the three row types declare are all plain.
\<close>

definition plainColumn :: "string \<Rightarrow> bool" where
  "plainColumn c =
     (\<not> includesStr c ''_neq'' \<and> \<not> includesStr c ''_lt'' \<and> \<not> includesStr c ''_lte'' \<and>
      \<not> includesStr c ''_gt'' \<and> \<not> includesStr c ''_gte'')"

definition schemaColumns :: "string list" where
  "schemaColumns =
     [''id'', ''domain'', ''wallet_address'', ''expiry_date'', ''reminders_sent'', ''created_at'',
      ''updated_at'', ''reminder_id'', ''sent_at'', ''reminder_type'', ''message_id'',
      ''conversation_id'', ''last_message_at'']"

text \<open>Reading one column off an insert result and off every row of a table; the row that
  \<open>executeUpdate\<close> writes back for a matching row of table \<open>t\<close>.\<close>

definition resultField :: "string \<Rightarrow> row db_result \<Rightarrow> val option" where
  "resultField k res = (case res of Inl e \<Rightarrow> None | Inr r \<Rightarrow> Some (getv r k))"

definition columnValues :: "string \<Rightarrow> table \<Rightarrow> val list" where
  "columnValues k t = map (\<lambda>e. getv (snd e) k) t"

definition patchedRow :: "js \<Rightarrow> int \<Rightarrow> string \<Rightarrow> row \<Rightarrow> row \<Rightarrow> row" where
  "patchedRow J now t patch r =
     (if t = ''reminders'' then (r ++ patch)(''updated_at'' \<mapsto> VStr (toISOString J now)) else r ++ patch)"

text \<open>A store with one delivery record, and a short history of store operations.\<close>

definition exSent :: db where
  "exSent = resetDb\<lparr>sentReminders := [(1, [''id'' \<mapsto> VNum 1, ''reminder_id'' \<mapsto> VNum 1])],
                    nextId_sentReminders := 2\<rparr>"

definition exOps :: "(int \<times> db_op) list" where
  "exOps =
     [(0, Insert ''reminders'' (One [''domain'' \<mapsto> VStr ''a.eth''])),
      (1, Delete ''reminders'' [(''domain'', VStr ''a.eth'')]),
      (2, Insert ''sent_reminders'' (One Map.empty)),
      (3, Insert ''reminders'' (Many [[''domain'' \<mapsto> VStr ''b.eth'']]))]"

text \<open>
  The invariant of the scheduler: no job object has two executions in flight, the running
  flag of an object is set exactly while an execution of it is in flight, and every
  address in use points into the heap.
\<close>

definition cronInv :: "cron \<Rightarrow> bool" where
  "cronInv s =
     (distinct (pending s) \<and>
      (\<forall>a < length (objects s). isRunning (objects s ! a) = (a \<in> set (pending s))) \<and>
      (\<forall>a \<in> set (pending s). a < length (objects s)) \<and>
      (\<forall>e \<in> set (jobs s). snd e < length (objects s)))"

text \<open>The executions in flight under a job name, and the job objects that were ever
  created under it.\<close>

definition inFlight :: "cron \<Rightarrow> string \<Rightarrow> nat" where
  "inFlight s ident = length (filter (\<lambda>a. job_id (objects s ! a) = ident) (pending s))"

definition registrations :: "cron \<Rightarrow> string \<Rightarrow> nat" where
  "registrations s ident = length (filter (\<lambda>job. job_id job = ident) (objects s))"

definition exEvents :: "(int \<times> event) list" where
  "exEvents = [(0, Schedule ''daily'' ''0 9 * * *''), (1, TriggerJob ''daily'')]"

text \<open>A name that is scheduled again while its job is running, and triggered before and
  after.\<close>

definition exReschedule :: "(int \<times> event) list" where
  "exReschedule =
     [(0, Schedule ''j'' ''* * * * *''), (1, TriggerJob ''j''),
      (2, Schedule ''j'' ''* * * * *''), (3, TriggerJob ''j'')]"

section \<open>Properties of the reminder engine\<close>

subsection \<open>Delivery records\<close>

lemma endsWith_reminder_id:
  "\<not> endsWith ''reminder_id'' ''_neq''" "\<not> endsWith ''reminder_id'' ''_lt''"
  "\<not> endsWith ''reminder_id'' ''_lte''" "\<not> endsWith ''reminder_id'' ''_gt''"
  "\<not> endsWith ''reminder_id'' ''_gte''"
  by (simp_all add: endsWith_def)

lemma entryAccepts_reminder_id:
  "entryAccepts J r (''reminder_id'', v) = (getv r ''reminder_id'' = v)"
  by (simp add: entryAccepts_def endsWith_reminder_id)

lemma has_iff: "hasReminderBeenSent J d rid tag = (0 < countSent d rid tag)"
  by (auto simp add: hasReminderBeenSent_def executeSelect_def tableRows_def countSent_def
      entryAccepts_reminder_id isSentRecord_def list_ex_iff filter_empty_conv)

lemma mapSet_fresh: "list_all (\<lambda>e. fst e < (k :: int)) t \<Longrightarrow> mapSet k v t = t @ [(k, v)]"
  by (induction t) auto

lemma record_sent:
  assumes "wfDb d"
  shows "\<exists>r. sentReminders (recordSentReminder J now d rid tag) = sentReminders d @ [(nextId_sentReminders d, r)]
           \<and> (\<forall>rid' tag'. isSentRecord rid' tag' r = (rid' = rid \<and> tag' = tag))"
    and "reminders (recordSentReminder J now d rid tag) = reminders d"
    and "wfDb (recordSentReminder J now d rid tag)"
  using assms
  by (auto simp add: recordSentReminder_def executeInsert_def Let_def wfDb_def wfTable_def mapSet_fresh
      isSentRecord_def getv_def list_all_iff)

lemma countSent_append:
  "sentReminders d' = sentReminders d @ new \<Longrightarrow> countSent d' rid tag = countSent d rid tag + newOf rid tag new"
  by (simp add: countSent_def newOf_def)

lemma extends_refl: "wfDb d \<Longrightarrow> extends d d"
  by (simp add: extends_def newOf_def)

lemma extends_wf: "extends d d' \<Longrightarrow> wfDb d'"
  by (simp add: extends_def)

lemma extends_trans:
  assumes "extends a b" "extends b c"
  shows "extends a c"
proof -
  from assms(1) obtain n1 where n1: "sentReminders b = sentReminders a @ n1"
    and p1: "\<And>rid tag. newOf rid tag n1 \<le> 1"
    and q1: "\<And>rid tag. 0 < countSent a rid tag \<Longrightarrow> newOf rid tag n1 = 0"
    by (auto simp: extends_def)
  from assms(2) obtain n2 where n2: "sentReminders c = sentReminders b @ n2"
    and p2: "\<And>rid tag. newOf rid tag n2 \<le> 1"
    and q2: "\<And>rid tag. 0 < countSent b rid tag \<Longrightarrow> newOf rid tag n2 = 0"
    by (auto simp: extends_def)
  have app: "\<And>rid tag. newOf rid tag (n1 @ n2) = newOf rid tag n1 + newOf rid tag n2"
    by (simp add: newOf_def)
  have cb: "\<And>rid tag. countSent b rid tag = countSent a rid tag + newOf rid tag n1"
    using n1 by (rule countSent_append)
  have "\<And>rid tag. newOf rid tag (n1 @ n2) \<le> 1 \<and> (0 < countSent a rid tag \<longrightarrow> newOf rid tag (n1 @ n2) = 0)"
  proof -
    fix rid tag
    show "newOf rid tag (n1 @ n2) \<le> 1 \<and> (0 < countSent a rid tag \<longrightarrow> newOf rid tag (n1 @ n2) = 0)"
      using p1[of rid tag] p2[of rid tag] q1[of rid tag] q2[of rid tag] cb[of rid tag] app[of rid tag]
      by (cases "newOf rid tag n1 = 0") auto
  qed
  moreover have "sentReminders c = sentReminders a @ (n1 @ n2)" using n1 n2 by simp
  ultimately show ?thesis using assms by (auto simp: extends_def simp del: append_assoc)
qed

lemma extends_record:
  assumes "wfDb d" "\<not> hasReminderBeenSent J d rid tag"
  shows "extends d (recordSentReminder J now d rid tag)"
proof -
  from record_sent(1)[OF assms(1), of J now rid tag] obtain r where
    r: "sentReminders (recordSentReminder J now d rid tag) = sentReminders d @ [(nextId_sentReminders d, r)]"
    and m: "\<And>rid' tag'. isSentRecord rid' tag' r = (rid' = rid \<and> tag' = tag)" by blast
  have c0: "countSent d rid tag = 0" using assms(2) by (simp add: has_iff)
  have "\<And>rid' tag'. newOf rid' tag' [(nextId_sentReminders d, r)] \<le> 1
        \<and> (0 < countSent d rid' tag' \<longrightarrow> newOf rid' tag' [(nextId_sentReminders d, r)] = 0)"
    using c0 by (auto simp: newOf_def m)
  then show ?thesis
    using r record_sent(2,3)[OF assms(1)] unfolding extends_def by blast
qed

lemma extends_has:
  assumes "extends d d'" and "hasReminderBeenSent J d rid tag"
  shows "hasReminderBeenSent J d' rid tag"
proof -
  from assms(1) obtain new where "sentReminders d' = sentReminders d @ new"
    by (auto simp: extends_def)
  then have "countSent d rid tag \<le> countSent d' rid tag" by (simp add: countSent_def)
  with assms(2) show ?thesis by (simp add: has_iff)
qed

lemma has_after_record:
  assumes "wfDb d"
  shows "hasReminderBeenSent J (recordSentReminder J now d rid tag) rid tag"
proof -
  from record_sent(1)[OF assms, of J now rid tag] obtain r where
    r: "sentReminders (recordSentReminder J now d rid tag) = sentReminders d @ [(nextId_sentReminders d, r)]"
    and m: "\<And>rid' tag'. isSentRecord rid' tag' r = (rid' = rid \<and> tag' = tag)" by blast
  show ?thesis by (simp add: has_iff countSent_def r m)
qed







lemma reminderTypeOf_defaults:
  "reminderTypeOf 30 = ''day_30''" "reminderTypeOf 7 = ''day_7''" "reminderTypeOf 1 = ''day_1''"
  by code_simp+




lemma intervals_default: "reminderIntervals (newReminderService None None) = [30, 7, 1]"
  by (simp add: newReminderService_def)

subsection \<open>The gateway\<close>

text \<open>The gateway accepts a message exactly when it is connected and the recipient is a
  string; it then stores the message with the recipient and the text it was given.\<close>

lemma sendMessage_accepts:
  "isConnected x \<Longrightarrow>
   \<exists>c. sendMessage x (VStr a) text =
          Inr (\<lparr>recipient = VStr a, content = text, conversation = c\<rparr>,
               x\<lparr>sentMessages := sentMessages x @ [\<lparr>recipient = VStr a, content = text, conversation = c\<rparr>]\<rparr>)"
  by (simp add: sendMessage_def getConversationId_def Let_def)

lemma sendMessage_Inr:
  "sendMessage x v text = Inr (m, x') \<Longrightarrow>
   isConnected x \<and> (\<exists>a. v = VStr a) \<and> recipient m = v \<and> content m = text \<and>
   x' = x\<lparr>sentMessages := sentMessages x @ [m]\<rparr>"
  by (cases v) (auto simp: sendMessage_def getConversationId_def Let_def split: if_splits sum.splits)


subsection \<open>One pass, step by step\<close>

lemma resume_head:
  "todo p = t # ts \<Longrightarrow> \<not> settled p \<Longrightarrow> resume J cfg p w = resumeTask J cfg t ts p w"
  by (simp add: resume_def)

lemma unsettled:
  "stage p = Checked b \<Longrightarrow> \<not> settled p" "stage p = Delay \<Longrightarrow> \<not> settled p"
  "stage p = Sent b \<Longrightarrow> \<not> settled p" "stage p = Inserting \<Longrightarrow> \<not> settled p"
  "stage p = Inserted \<Longrightarrow> \<not> settled p"
  by (simp_all add: settled_def)


lemma resume_interval_accepted:
  "todo p = Interval r i # ts \<Longrightarrow> stage p = Checked False \<Longrightarrow> enableXMTP cfg \<Longrightarrow>
   sendMessage (gateway w) (getv r ''wallet_address'') (createReminderMessage (valToString (getv r ''domain'')) i)
     = Inr (m, x') \<Longrightarrow>
   resume J cfg p w = (p\<lparr>stage := Delay\<rparr>, w\<lparr>gateway := x'\<rparr>)"
  by (simp add: resume_def settled_def resumeTask_def sendReminder_def)











lemma nextTask_todo: "todo (nextTask J p w) = todo p"
  by (simp add: nextTask_def split: list.splits)


subsection \<open>A pass that nothing overlaps\<close>

lemma nextTask_agrees: "agrees J (nextTask J p w) w"
  by (simp add: agrees_def nextTask_def split: list.splits)

lemma agrees_empty: "todo p = [] \<Longrightarrow> agrees J p w"
  by (simp add: agrees_def)

lemma startPass_agrees: "agrees J (startPass J cfg now w) w"
  unfolding startPass_def by (auto simp: nextTask_agrees agrees_empty split: sum.splits)

lemma resume_agrees:
  assumes "wfDb (store w)" and "agrees J p w"
  shows "extends (store w) (store (snd (resume J cfg p w))) \<and>
         agrees J (fst (resume J cfg p w)) (snd (resume J cfg p w))"
proof (cases "settled p")
  case True
  with assms show ?thesis by (simp add: resume_def extends_refl)
next
  case False
  show ?thesis
  proof (cases "todo p")
    case Nil
    with False assms show ?thesis by (simp add: resume_def extends_refl agrees_def)
  next
    case (Cons t ts)
    have r: "resume J cfg p w = resumeTask J cfg t ts p w"
      using Cons False by (rule resume_head)
    show ?thesis
    proof (cases "stage p")
      case (Checked b)
      show ?thesis
      proof (cases b)
        case True
        with assms Cons Checked show ?thesis
          by (simp add: r resumeTask_def extends_refl nextTask_agrees)
      next
        case False
        with assms Cons Checked show ?thesis
          by (auto simp: r resumeTask_def sendReminder_def Let_def extends_refl agrees_def
              split: task.splits sum.splits prod.splits)
      qed
    next
      case Delay
      with assms Cons show ?thesis
        by (simp add: r resumeTask_def extends_refl agrees_def)
    next
      case (Sent ok)
      show ?thesis
      proof (cases ok)
        case True
        with assms Cons Sent show ?thesis
          by (simp add: r resumeTask_def extends_refl agrees_def)
      next
        case False
        with assms Cons Sent show ?thesis
          by (simp add: r resumeTask_def extends_refl nextTask_agrees)
      qed
    next
      case Inserting
      with assms Cons show ?thesis
        by (simp add: r resumeTask_def extends_record agrees_def)
    next
      case Inserted
      with assms Cons show ?thesis
        by (simp add: r resumeTask_def extends_refl nextTask_agrees)
    next
      case Completed
      with False show ?thesis by (simp add: settled_def)
    next
      case (Threw e)
      with False show ?thesis by (simp add: settled_def)
    qed
  qed
qed

lemma finishPass_settled: "settled (fst (finishPass J cfg p w))"
proof (induction J cfg p w rule: finishPass.induct)
  case (1 J cfg p w)
  show ?case
  proof (cases "settled p")
    case True
    then show ?thesis by (simp add: finishPass.simps[of J cfg p w])
  next
    case False
    obtain p' w' where r: "resume J cfg p w = (p', w')" by force
    from 1[OF False r[symmetric]] show ?thesis
      using False r by (simp add: finishPass.simps[of J cfg p w])
  qed
qed

lemma finishPass_extends:
  "wfDb (store w) \<Longrightarrow> agrees J p w \<Longrightarrow> extends (store w) (store (snd (finishPass J cfg p w)))"
proof (induction J cfg p w rule: finishPass.induct)
  case (1 J cfg p w)
  show ?case
  proof (cases "settled p")
    case True
    with 1(2) show ?thesis by (simp add: finishPass.simps[of J cfg p w] extends_refl)
  next
    case False
    obtain p' w' where r: "resume J cfg p w = (p', w')" by force
    from resume_agrees[OF 1(2,3), of cfg] r
    have e: "extends (store w) (store w')" and a: "agrees J p' w'" by simp_all
    from e have "wfDb (store w')" by (rule extends_wf)
    from 1(1)[OF False r[symmetric] this a] e show ?thesis
      using False r by (simp add: finishPass.simps[of J cfg p w] extends_trans)
  qed
qed

lemma processReminders_world:
  "fst (snd (processReminders J cfg now w)) = snd (finishPass J cfg (startPass J cfg now w) w)"
  by (simp add: processReminders_def case_prod_beta)



subsection \<open>Several passes\<close>




text \<open>\<open>finals\<close> finds every state in which a run can come to rest, and only such states.\<close>

lemma joinAll_Some:
  "joinAll xs = Some ys \<Longrightarrow> x \<in> set xs \<Longrightarrow> \<exists>zs. x = Some zs \<and> set zs \<subseteq> set ys"
proof (induction xs arbitrary: ys)
  case Nil
  then show ?case by simp
next
  case (Cons a xs)
  from Cons.prems(1) obtain as rest where a: "a = Some as" and j: "joinAll xs = Some rest"
    and ys: "ys = as @ rest"
    by (cases a) (auto split: option.splits)
  show ?case
  proof (cases "x = a")
    case True
    with a ys show ?thesis by simp
  next
    case False
    with Cons.prems(2) have "x \<in> set xs" by simp
    from Cons.IH[OF j this] ys show ?thesis by auto
  qed
qed

lemma joinAll_mem:
  "joinAll xs = Some ys \<Longrightarrow> y \<in> set ys \<Longrightarrow> \<exists>zs. Some zs \<in> set xs \<and> y \<in> set zs"
proof (induction xs arbitrary: ys)
  case Nil
  then show ?case by simp
next
  case (Cons a xs)
  from Cons.prems(1) obtain as rest where a: "a = Some as" and j: "joinAll xs = Some rest"
    and ys: "ys = as @ rest"
    by (cases a) (auto split: option.splits)
  show ?case
  proof (cases "y \<in> set as")
    case True
    with a show ?thesis by auto
  next
    case False
    with Cons.prems(2) ys have "y \<in> set rest" by simp
    from Cons.IH[OF j this] show ?thesis by auto
  qed
qed

lemma runMoves_rest: "enabled s = [] \<Longrightarrow> runMoves J cfg ms s = Some s' \<Longrightarrow> ms = [] \<and> s' = s"
  by (cases ms) auto

lemma finals_cover:
  "finals J cfg n s = Some ss \<Longrightarrow> runMoves J cfg ms s = Some s' \<Longrightarrow> enabled s' = [] \<Longrightarrow> s' \<in> set ss"
proof (induction n arbitrary: s ss ms)
  case 0
  then show ?case using runMoves_rest[of s J cfg ms s'] by (auto split: if_splits)
next
  case (Suc n)
  show ?case
  proof (cases "enabled s = []")
    case True
    with Suc.prems show ?thesis using runMoves_rest[of s J cfg ms s'] by auto
  next
    case False
    with Suc.prems(1) have j: "joinAll (map (\<lambda>m. finals J cfg n (fire J cfg m s)) (enabled s)) = Some ss"
      by simp
    from False Suc.prems(2,3) obtain m ms' where ms: "ms = m # ms'" by (cases ms) auto
    with Suc.prems(2) have m: "m \<in> set (enabled s)" and r: "runMoves J cfg ms' (fire J cfg m s) = Some s'"
      by (auto split: if_splits)
    from joinAll_Some[OF j, of "finals J cfg n (fire J cfg m s)"] m
    obtain zs where z: "finals J cfg n (fire J cfg m s) = Some zs" and sub: "set zs \<subseteq> set ss" by auto
    from Suc.IH[OF z r Suc.prems(3)] sub show ?thesis by auto
  qed
qed

lemma finals_reached:
  "finals J cfg n s = Some ss \<Longrightarrow> s' \<in> set ss \<Longrightarrow> \<exists>ms. runMoves J cfg ms s = Some s' \<and> enabled s' = []"
proof (induction n arbitrary: s ss)
  case 0
  then have "s' = s \<and> enabled s = []" by (auto split: if_splits)
  then have "runMoves J cfg [] s = Some s' \<and> enabled s' = []" by simp
  then show ?case by blast
next
  case (Suc n)
  show ?case
  proof (cases "enabled s = []")
    case True
    with Suc.prems have "runMoves J cfg [] s = Some s' \<and> enabled s' = []" by auto
    then show ?thesis by blast
  next
    case False
    with Suc.prems(1) have j: "joinAll (map (\<lambda>m. finals J cfg n (fire J cfg m s)) (enabled s)) = Some ss"
      by simp
    from joinAll_mem[OF j Suc.prems(2)] obtain m zs where m: "m \<in> set (enabled s)"
      and z: "Some zs = finals J cfg n (fire J cfg m s)" and s': "s' \<in> set zs" by auto
    from Suc.IH[OF z[symmetric] s'] obtain ms where "runMoves J cfg ms (fire J cfg m s) = Some s'" and e: "enabled s' = []"
      by blast
    with m have "runMoves J cfg (m # ms) s = Some s'" by simp
    with e show ?thesis by blast
  qed
qed

subsection \<open>A caller that waits between its calls\<close>

lemma settled_not_ready: "settled p \<Longrightarrow> \<not> ready p"
  by (auto simp: settled_def ready_def split: stage.splits)

lemma settled_not_delayed: "settled p \<Longrightarrow> \<not> delayed p"
  by (auto simp: settled_def delayed_def split: stage.splits)

lemma unsettled_ready: "\<not> settled p \<Longrightarrow> ready p \<noteq> delayed p"
  by (auto simp: settled_def ready_def delayed_def split: stage.splits)

lemma filter_settled:
  assumes "list_all settled ps" and "\<And>q. settled q \<Longrightarrow> \<not> Q q"
  shows "filter (\<lambda>i. Q (ps ! i)) [0 ..< length ps] = []"
  using assms by (auto simp: filter_empty_conv list_all_length)

lemma filter_last:
  assumes "list_all settled ps" and "\<And>q. settled q \<Longrightarrow> \<not> Q q"
  shows "filter (\<lambda>i. Q ((ps @ [p]) ! i)) [0 ..< length (ps @ [p])] = (if Q p then [length ps] else [])"
proof -
  have "filter (\<lambda>i. Q ((ps @ [p]) ! i)) [0 ..< length ps] = []"
    using assms by (auto simp: filter_empty_conv list_all_length nth_append)
  then show ?thesis by simp
qed

lemma enabled_running:
  assumes "list_all settled ps" and "\<not> settled p"
  shows "enabled \<lparr>services = w, passes = ps @ [p], script = Idle # tail\<rparr> = [Step (length ps)]"
proof -
  have r: "filter (\<lambda>i. ready ((ps @ [p]) ! i)) [0 ..< length (ps @ [p])] = (if ready p then [length ps] else [])"
    using assms(1) settled_not_ready by (rule filter_last)
  have d: "filter (\<lambda>i. delayed ((ps @ [p]) ! i)) [0 ..< length (ps @ [p])] = (if delayed p then [length ps] else [])"
    using assms(1) settled_not_delayed by (rule filter_last)
  show ?thesis
    using unsettled_ready[OF assms(2)] assms(2)
    by (simp only: enabled_def Let_def system.simps r d) (auto simp: list_all_iff)
qed

lemma enabled_waiting:
  assumes "list_all settled ps"
  shows "enabled \<lparr>services = w, passes = ps, script = Idle # tail\<rparr> = [Caller]"
    and "enabled \<lparr>services = w, passes = ps, script = Call now # tail\<rparr> = [Caller]"
    and "enabled \<lparr>services = w, passes = ps, script = []\<rparr> = []"
  using filter_settled[OF assms, of ready] filter_settled[OF assms, of delayed]
    settled_not_ready settled_not_delayed assms
  by (simp_all add: enabled_def)

lemma run_one_pass:
  "list_all settled ps \<Longrightarrow>
   runMoves J cfg ms \<lparr>services = w, passes = ps @ [p], script = Idle # tail\<rparr> = Some s' \<Longrightarrow>
   enabled s' = [] \<Longrightarrow>
   \<exists>ms'. runMoves J cfg ms' \<lparr>services = snd (finishPass J cfg p w),
                              passes = ps @ [fst (finishPass J cfg p w)], script = tail\<rparr> = Some s'"
proof (induction J cfg p w arbitrary: ms rule: finishPass.induct)
  case (1 J cfg p w)
  let ?s = "\<lparr>services = w, passes = ps @ [p], script = Idle # tail\<rparr>"
  show ?case
  proof (cases "settled p")
    case True
    with 1(2) have all: "list_all settled (ps @ [p])" by simp
    have en: "enabled ?s = [Caller]" using all by (rule enabled_waiting(1))
    from 1(3,4) en obtain ms' where ms: "ms = Caller # ms'" by (cases ms) (auto split: if_splits)
    with 1(3) en have "runMoves J cfg ms' \<lparr>services = w, passes = ps @ [p], script = tail\<rparr> = Some s'"
      by simp
    with True show ?thesis by (auto simp: finishPass.simps[of J cfg p w])
  next
    case False
    have en: "enabled ?s = [Step (length ps)]" using 1(2) False by (rule enabled_running)
    obtain p' w' where r: "resume J cfg p w = (p', w')" by force
    from 1(3,4) en obtain ms' where ms: "ms = Step (length ps) # ms'"
      by (cases ms) (auto split: if_splits)
    with 1(3) en r have "runMoves J cfg ms' \<lparr>services = w', passes = ps @ [p'], script = Idle # tail\<rparr> = Some s'"
      by simp
    from 1(1)[OF False r[symmetric] 1(2) this 1(4)] show ?thesis
      using False r by (simp add: finishPass.simps[of J cfg p w])
  qed
qed

text \<open>
  When the caller waits between its calls, only one pass is under way at any time and the
  system has no choice: whatever run comes to rest ends with the services as the passes
  leave them in turn.
\<close>

lemma inTurn_run:
  "list_all settled ps \<Longrightarrow>
   runMoves J cfg ms \<lparr>services = w, passes = ps, script = inTurn nows\<rparr> = Some s' \<Longrightarrow>
   enabled s' = [] \<Longrightarrow> services s' = passesInTurn J cfg nows w"
proof (induction nows arbitrary: ms ps w)
  case Nil
  have e: "enabled \<lparr>services = w, passes = ps, script = []\<rparr> = []"
    using Nil.prems(1) by (rule enabled_waiting(3))
  have "runMoves J cfg ms \<lparr>services = w, passes = ps, script = []\<rparr> = Some s'"
    using Nil.prems(2) by (simp add: inTurn_def)
  from runMoves_rest[OF e this] show ?case by simp
next
  case (Cons now rest)
  have sc: "inTurn (now # rest) = Call now # Idle # inTurn rest" by (simp add: inTurn_def)
  let ?s = "\<lparr>services = w, passes = ps, script = Call now # Idle # inTurn rest\<rparr>"
  have en: "enabled ?s = [Caller]" using Cons.prems(1) by (rule enabled_waiting(2))
  from Cons.prems(2,3) en sc obtain ms1 where ms: "ms = Caller # ms1"
    by (cases ms) (auto split: if_splits)
  let ?p = "startPass J cfg now w"
  from Cons.prems(2) ms en sc
  have "runMoves J cfg ms1 \<lparr>services = w, passes = ps @ [?p], script = Idle # inTurn rest\<rparr> = Some s'"
    by simp
  from run_one_pass[OF Cons.prems(1) this Cons.prems(3)] obtain ms2 where
    r2: "runMoves J cfg ms2 \<lparr>services = snd (finishPass J cfg ?p w),
                            passes = ps @ [fst (finishPass J cfg ?p w)], script = inTurn rest\<rparr> = Some s'"
    by blast
  have "list_all settled (ps @ [fst (finishPass J cfg ?p w)])"
    using Cons.prems(1) by (simp add: finishPass_settled)
  from Cons.IH[OF this r2 Cons.prems(3)] show ?case by (simp add: processReminders_world)
qed

subsection \<open>Passes that overlap\<close>

text \<open>
  Two calls of \<open>processReminders\<close> at the same instant, each awaited, over one reminder
  that is seven days from expiry, with the default configuration and a connected gateway.
  The first pass is still waiting in \<open>sendMessage\<close> when the second call reads the
  store. In every state in which the system can come to rest, the pair \<open>(1, day_7)\<close> has
  two delivery records and the gateway has sent the reminder twice.
\<close>

lemma overlap_finals:
  "everyFinal (delivered (VNum 1) ''day_7'' 2 [createReminderMessage ''a.eth'' 7, createReminderMessage ''a.eth'' 7])
     (finals exJs (newReminderService None None) 12 (awaited [0, 0] exWorld))"
  by code_simp

lemma overlap_every_run:
  assumes "runMoves exJs (newReminderService None None) ms (awaited [0, 0] exWorld) = Some s"
    and "enabled s = []"
  shows "delivered (VNum 1) ''day_7'' 2 [createReminderMessage ''a.eth'' 7, createReminderMessage ''a.eth'' 7] s"
proof -
  from overlap_finals obtain ss where
    f: "finals exJs (newReminderService None None) 12 (awaited [0, 0] exWorld) = Some ss"
    and a: "list_all (delivered (VNum 1) ''day_7'' 2 [createReminderMessage ''a.eth'' 7, createReminderMessage ''a.eth'' 7]) ss"
    by (cases "finals exJs (newReminderService None None) 12 (awaited [0, 0] exWorld)") auto
  from finals_cover[OF f assms] a show ?thesis by (simp add: list_all_iff)
qed

text \<open>
  C1 at a failing input: the store holds one reminder, number 1, seven days from expiry,
  and no delivery record; the gateway is connected; the configuration is the default one;
  \<open>processReminders\<close> is called twice at the same instant, each call awaited. The claim
  allows one record for \<open>(1, day_7)\<close>. However the event loop orders the two passes, the
  store ends with two such records and the gateway with two reminders sent. Had the
  caller waited for the first pass to finish, there would be one.
\<close>

theorem awaited_passes_deliver_twice:
  "daysUntilExpiry exJs 0 (exRow 1 ''a.eth'' (7 * oneDay)) = Some 7 \<and>
   countSent (store exWorld) (VNum 1) ''day_7'' = 0 \<and>
   everyFinal (delivered (VNum 1) ''day_7'' 2 [createReminderMessage ''a.eth'' 7, createReminderMessage ''a.eth'' 7])
     (finals exJs (newReminderService None None) 12 (awaited [0, 0] exWorld)) \<and>
   countSent (store (passesInTurn exJs (newReminderService None None) [0, 0] exWorld)) (VNum 1) ''day_7'' = 1"
  by code_simp


subsection \<open>The check before a send, and the record after it\<close>



lemma exRow_fields:
  "getv (exRow i name expiry) ''id'' = VNum i" "getv (exRow i name expiry) ''domain'' = VStr name"
  "getv (exRow i name expiry) ''wallet_address'' = VStr ''0xa''"
  "getv (exRow i name expiry) ''expiry_date'' = VNum expiry"
  by (simp_all add: exRow_def getv_def)

lemma startPass_eq:
  "startPass J cfg now w =
     nextTask J \<lparr>instant = now, todo = concat (map (dueTasks J cfg now) (map snd (reminders (store w)))),
                 stage = Completed, processedCount = 0\<rparr> w"
  by (simp add: startPass_def executeSelect_def tableRows_def)

lemma startPass_todo:
  "todo (startPass J cfg now w) = concat (map (dueTasks J cfg now) (map snd (reminders (store w))))"
  by (simp add: startPass_eq nextTask_todo)

lemma dueTasks_due:
  assumes "reminderIntervals cfg = [30, 7, 1]" and "daysUntilExpiry J now r = Some d"
    and "d = 30 \<or> d = 7 \<or> d = 1"
  shows "dueTasks J cfg now r = [Interval r d]"
  using assms by (auto simp: dueTasks_def)

lemma dueTasks_not_due:
  assumes "reminderIntervals cfg = [30, 7, 1]" and "daysUntilExpiry J now r = Some d"
    and "d \<noteq> 30" "d \<noteq> 7" "d \<noteq> 1" "0 < d"
  shows "dueTasks J cfg now r = []"
  using assms by (auto simp: dueTasks_def)


lemma days_exWorld: "daysUntilExpiry exJs 0 (exRow 1 ''a.eth'' (7 * oneDay)) = Some 7"
  by code_simp




subsection \<open>Which intervals are due\<close>

lemma ceil_div_iff:
  fixes x d D :: int
  assumes "0 < D"
  shows "(- ((- x) div D) = d) = ((d - 1) * D < x \<and> x \<le> d * D)"
proof
  assume h: "- ((- x) div D) = d"
  have e: "- x = ((- x) div D) * D + (- x) mod D" by simp
  have m: "0 \<le> (- x) mod D" "(- x) mod D < D" using assms by simp_all
  from h have q: "(- x) div D = - d" by simp
  from e q have "x = d * D - (- x) mod D" by simp
  with m show "(d - 1) * D < x \<and> x \<le> d * D" by (simp add: algebra_simps)
next
  assume h: "(d - 1) * D < x \<and> x \<le> d * D"
  have "(- x) div D = - d"
  proof (rule int_div_pos_eq)
    show "- x = D * (- d) + (d * D - x)" by (simp add: algebra_simps)
    show "0 \<le> d * D - x" using h by simp
    show "d * D - x < D" using h by (simp add: algebra_simps)
  qed
  then show "- ((- x) div D) = d" by simp
qed

lemma ceil_days:
  "(- ((- x) div oneDay) = d) = ((d - 1) * oneDay < x \<and> x \<le> d * oneDay)"
  by (rule ceil_div_iff) (simp add: oneDay_def)

lemma daysUntilExpiry_iff:
  "dateParse J (getv r ''expiry_date'') = Some e \<Longrightarrow>
   (daysUntilExpiry J now r = Some d) = ((d - 1) * oneDay < e - now \<and> e - now \<le> d * oneDay)"
  using ceil_days[of "e - now" d] by (simp add: daysUntilExpiry_def)

text \<open>
  C3. The days remaining are \<open>d\<close> exactly when the time to expiry lies in the half-open
  day \<open>((d - 1) * oneDay, d * oneDay]\<close>, which is the ceiling of the quotient. With the
  configured intervals 30, 7 and 1, a row with 30, 7 or 1 days remaining gives the pass one
  task, the interval of that many days, looked up and recorded under the tag of that
  interval (no other interval, no post-expiry notice); a row with 29, 8 or 2 days
  remaining gives it none. The tasks of a pass are those of the rows, in the order of the
  table. In the task of the interval \<open>d\<close>, when the check found no record, delivery is
  enabled, the gateway is connected and the wallet address of the row is a string, the
  message the gateway stores is the reminder rendered for \<open>d\<close> days, addressed to that
  wallet.
\<close>

theorem threshold_exactness:
  assumes "reminderIntervals cfg = [30, 7, 1]"
    and "dateParse J (getv r ''expiry_date'') = Some e"
  shows
   "(daysUntilExpiry J now r = Some d) = ((d - 1) * oneDay < e - now \<and> e - now \<le> d * oneDay) \<and>
    (daysUntilExpiry J now r = Some d \<and> (d = 30 \<or> d = 7 \<or> d = 1) \<longrightarrow>
       dueTasks J cfg now r = [Interval r d] \<and>
       taskType (Interval r d) = (if d = 30 then ''day_30'' else if d = 7 then ''day_7'' else ''day_1'')) \<and>
    (daysUntilExpiry J now r = Some d \<and> (d = 29 \<or> d = 8 \<or> d = 2) \<longrightarrow> dueTasks J cfg now r = []) \<and>
    todo (startPass J cfg now w) = concat (map (dueTasks J cfg now) (map snd (reminders (store w)))) \<and>
    (todo p = Interval r d # ts \<and> stage p = Checked False \<and> enableXMTP cfg \<and>
     isConnected (gateway w) \<and> getv r ''wallet_address'' = VStr a \<longrightarrow>
       (\<exists>c. resume J cfg p w =
              (p\<lparr>stage := Delay\<rparr>,
               w\<lparr>gateway := (gateway w)\<lparr>sentMessages := sentMessages (gateway w) @
                    [\<lparr>recipient = VStr a,
                      content = createReminderMessage (valToString (getv r ''domain'')) d,
                      conversation = c\<rparr>]\<rparr>\<rparr>)))"
proof -
  have a: "(daysUntilExpiry J now r = Some d) = ((d - 1) * oneDay < e - now \<and> e - now \<le> d * oneDay)"
    using assms(2) by (rule daysUntilExpiry_iff)
  have b: "daysUntilExpiry J now r = Some d \<and> (d = 30 \<or> d = 7 \<or> d = 1) \<longrightarrow>
       dueTasks J cfg now r = [Interval r d] \<and>
       taskType (Interval r d) = (if d = 30 then ''day_30'' else if d = 7 then ''day_7'' else ''day_1'')"
    using dueTasks_due[OF assms(1), of J now r d] by (auto simp: reminderTypeOf_defaults)
  have c: "daysUntilExpiry J now r = Some d \<and> (d = 29 \<or> d = 8 \<or> d = 2) \<longrightarrow> dueTasks J cfg now r = []"
    using dueTasks_not_due[OF assms(1), of J now r d] by auto
  have d: "todo (startPass J cfg now w) = concat (map (dueTasks J cfg now) (map snd (reminders (store w))))"
    by (rule startPass_todo)
  have e: "todo p = Interval r d # ts \<and> stage p = Checked False \<and> enableXMTP cfg \<and>
     isConnected (gateway w) \<and> getv r ''wallet_address'' = VStr a \<longrightarrow>
       (\<exists>c. resume J cfg p w =
              (p\<lparr>stage := Delay\<rparr>,
               w\<lparr>gateway := (gateway w)\<lparr>sentMessages := sentMessages (gateway w) @
                    [\<lparr>recipient = VStr a,
                      content = createReminderMessage (valToString (getv r ''domain'')) d,
                      conversation = c\<rparr>]\<rparr>\<rparr>))"
  proof (intro impI, elim conjE)
    assume h: "todo p = Interval r d # ts" "stage p = Checked False" "enableXMTP cfg"
      "isConnected (gateway w)" "getv r ''wallet_address'' = VStr a"
    from sendMessage_accepts[OF h(4), of a "createReminderMessage (valToString (getv r ''domain'')) d"]
    obtain c where
      "sendMessage (gateway w) (VStr a) (createReminderMessage (valToString (getv r ''domain'')) d) =
         Inr (\<lparr>recipient = VStr a, content = createReminderMessage (valToString (getv r ''domain'')) d,
                conversation = c\<rparr>,
              (gateway w)\<lparr>sentMessages := sentMessages (gateway w) @
                 [\<lparr>recipient = VStr a, content = createReminderMessage (valToString (getv r ''domain'')) d,
                   conversation = c\<rparr>]\<rparr>)"
      by blast
    with h(5) resume_interval_accepted[OF h(1,2,3), of w _ _ J] show
      "\<exists>c. resume J cfg p w =
              (p\<lparr>stage := Delay\<rparr>,
               w\<lparr>gateway := (gateway w)\<lparr>sentMessages := sentMessages (gateway w) @
                    [\<lparr>recipient = VStr a,
                      content = createReminderMessage (valToString (getv r ''domain'')) d,
                      conversation = c\<rparr>]\<rparr>\<rparr>)"
      by auto
  qed
  show ?thesis by (intro conjI a b c d e)
qed

theorem threshold_exactness_witness:
  "reminderIntervals (newReminderService None None) = [30, 7, 1] \<and>
   dateParse exJs (getv (exRow 1 ''a.eth'' (7 * oneDay)) ''expiry_date'') = Some (7 * oneDay) \<and>
   daysUntilExpiry exJs 0 (exRow 1 ''a.eth'' (7 * oneDay)) = Some 7 \<and>
   dueTasks exJs (newReminderService None None) 0 (exRow 1 ''a.eth'' (7 * oneDay))
     = [Interval (exRow 1 ''a.eth'' (7 * oneDay)) 7] \<and>
   taskType (Interval (exRow 1 ''a.eth'' (7 * oneDay)) 7) = ''day_7'' \<and>
   dateParse exJs (getv (exRow 1 ''a.eth'' (8 * oneDay)) ''expiry_date'') = Some (8 * oneDay) \<and>
   daysUntilExpiry exJs 0 (exRow 1 ''a.eth'' (8 * oneDay)) = Some 8 \<and>
   dueTasks exJs (newReminderService None None) 0 (exRow 1 ''a.eth'' (8 * oneDay)) = [] \<and>
   daysUntilExpiry exJs (oneDay - 1) (exRow 1 ''a.eth'' (8 * oneDay)) = Some 8 \<and>
   dueTasks exJs (newReminderService None None) (oneDay - 1) (exRow 1 ''a.eth'' (8 * oneDay)) = [] \<and>
   daysUntilExpiry exJs oneDay (exRow 1 ''a.eth'' (8 * oneDay)) = Some 7 \<and>
   dueTasks exJs (newReminderService None None) oneDay (exRow 1 ''a.eth'' (8 * oneDay))
     = [Interval (exRow 1 ''a.eth'' (8 * oneDay)) 7]"
proof -
  let ?cfg = "newReminderService None None"
  have p7: "dateParse exJs (getv (exRow 1 ''a.eth'' (7 * oneDay)) ''expiry_date'') = Some (7 * oneDay)"
    by (simp add: exJs_def exRow_fields)
  have p8: "dateParse exJs (getv (exRow 1 ''a.eth'' (8 * oneDay)) ''expiry_date'') = Some (8 * oneDay)"
    by (simp add: exJs_def exRow_fields)
  have d8: "daysUntilExpiry exJs 0 (exRow 1 ''a.eth'' (8 * oneDay)) = Some 8"
    by code_simp
  have d8': "daysUntilExpiry exJs (oneDay - 1) (exRow 1 ''a.eth'' (8 * oneDay)) = Some 8"
    by code_simp
  have d7': "daysUntilExpiry exJs oneDay (exRow 1 ''a.eth'' (8 * oneDay)) = Some 7"
    by code_simp
  have k7: "(7 :: int) = 30 \<or> (7 :: int) = 7 \<or> (7 :: int) = 1"
    and k8: "(8 :: int) = 29 \<or> (8 :: int) = 8 \<or> (8 :: int) = 2"
    by simp_all
  note A = threshold_exactness[OF intervals_default p7, where now = 0 and d = 7]
  note a = A[THEN conjunct2, THEN conjunct1, THEN mp, OF conjI[OF days_exWorld k7]]
  note B = threshold_exactness[OF intervals_default p8, where now = 0 and d = 8]
  note b = B[THEN conjunct2, THEN conjunct2, THEN conjunct1, THEN mp, OF conjI[OF d8 k8]]
  note B' = threshold_exactness[OF intervals_default p8, where now = "oneDay - 1" and d = 8]
  note b' = B'[THEN conjunct2, THEN conjunct2, THEN conjunct1, THEN mp, OF conjI[OF d8' k8]]
  note C = threshold_exactness[OF intervals_default p8, where now = oneDay and d = 7]
  note c = C[THEN conjunct2, THEN conjunct1, THEN mp, OF conjI[OF d7' k7]]
  have t: "taskType (Interval (exRow 1 ''a.eth'' (7 * oneDay)) 7) = ''day_7''"
    using a by simp
  show ?thesis
    by (intro conjI intervals_default p7 days_exWorld a[THEN conjunct1] t p8 d8 b d8' b' d7' c[THEN conjunct1])
qed

subsection \<open>The post-expiry notice\<close>





subsection \<open>Delivery disabled\<close>

text \<open>With delivery disabled, a due interval without a record gets its record although the
  gateway is left as it was: the pass reports the send as done at once and goes on to
  insert.\<close>

lemma disabled_records_without_send:
  assumes "\<not> enableXMTP cfg" and "todo p = Interval r i # ts" and "stage p = Checked False"
  shows "resume J cfg p w = (p\<lparr>stage := Sent True\<rparr>, w)"
    and "resume J cfg (p\<lparr>stage := Sent True\<rparr>) w = (p\<lparr>stage := Inserting\<rparr>, w)"
    and "resume J cfg (p\<lparr>stage := Inserting\<rparr>) w =
           (p\<lparr>stage := Inserted\<rparr>,
            w\<lparr>store := recordSentReminder J (instant p) (store w) (getv r ''id'') (reminderTypeOf i)\<rparr>)"
  using assms by (simp_all add: resume_def settled_def resumeTask_def sendReminder_def)

text \<open>
  C10 at a failing input. Delivery is disabled, so the service never connected the
  gateway. The first row has expired, the second is seven days from expiry and so has the
  due pair \<open>(2, day_7)\<close>. The post-expiry branch of the first row calls the gateway
  directly, the call throws, and the pass ends there: no record for \<open>(2, day_7)\<close> is
  inserted.
\<close>

theorem disabled_pass_stops_early:
  "daysUntilExpiry exJs 0 (exRow 2 ''b.eth'' (7 * oneDay)) = Some 7 \<and>
   fst (processReminders exJs (newReminderService (Some False) None) 0 exDisabled)
     = Some (Error ''XMTP service not connected'') \<and>
   countSent (store (fst (snd (processReminders exJs (newReminderService (Some False) None) 0 exDisabled))))
     (VNum 2) ''day_7'' = 0"
  by code_simp

text \<open>With delivery disabled, an interval task leaves the gateway as it is, and a pass that
  nothing overlaps and that reaches the end of the table leaves a record for every due
  pair of every row.\<close>

lemma disabled_interval_gateway:
  "\<not> enableXMTP cfg \<Longrightarrow> todo p = Interval r i # ts \<Longrightarrow> gateway (snd (resume J cfg p w)) = gateway w"
  by (auto simp: resume_def resumeTask_def sendReminder_def split: stage.splits)

lemma nextTask_stage:
  "stage (nextTask J p w) = Completed \<Longrightarrow> todo p = []"
  "stage (nextTask J p w) \<noteq> Sent False" "stage (nextTask J p w) \<noteq> Inserted"
  by (auto simp: nextTask_def split: list.splits)

lemma finishPass_completed:
  "wfDb (store w) \<Longrightarrow> \<not> enableXMTP cfg \<Longrightarrow> agrees J p w \<Longrightarrow> stage p \<noteq> Sent False \<Longrightarrow>
   (stage p = Completed \<longrightarrow> todo p = []) \<Longrightarrow>
   (stage p = Inserted \<longrightarrow>
      (\<forall>t ts. todo p = t # ts \<longrightarrow> hasReminderBeenSent J (store w) (getv (reminderOf t) ''id'') (taskType t))) \<Longrightarrow>
   stage (fst (finishPass J cfg p w)) = Completed \<Longrightarrow> t \<in> set (todo p) \<Longrightarrow>
   hasReminderBeenSent J (store (snd (finishPass J cfg p w))) (getv (reminderOf t) ''id'') (taskType t)"
proof (induction J cfg p w rule: finishPass.induct)
  case (1 J cfg p w)
  show ?case
  proof (cases "settled p")
    case True
    with 1(6,8,9) show ?thesis
      by (auto simp: finishPass.simps[of J cfg p w] settled_def split: stage.splits)
  next
    case False
    obtain p1 w1 where r: "resume J cfg p w = (p1, w1)" by force
    have f: "finishPass J cfg p w = finishPass J cfg p1 w1"
      using False r by (simp add: finishPass.simps[of J cfg p w])
    from resume_agrees[OF 1(2,4), of cfg] r
    have e: "extends (store w) (store w1)" and a1: "agrees J p1 w1" by simp_all
    from e have wf1: "wfDb (store w1)" by (rule extends_wf)
    have e1: "extends (store w1) (store (snd (finishPass J cfg p1 w1)))"
      using wf1 a1 by (rule finishPass_extends)
    from 1(9) obtain t0 ts where td: "todo p = t0 # ts" by (cases "todo p") auto
    have rt: "resumeTask J cfg t0 ts p w = (p1, w1)"
      using r resume_head[OF td False] by simp
    have c: "stage (fst (finishPass J cfg p1 w1)) = Completed" using 1(8) f by simp
    have step: "stage p1 \<noteq> Sent False \<and> (stage p1 = Completed \<longrightarrow> todo p1 = []) \<and>
          (stage p1 = Inserted \<longrightarrow>
             (\<forall>t ts. todo p1 = t # ts \<longrightarrow> hasReminderBeenSent J (store w1) (getv (reminderOf t) ''id'') (taskType t))) \<and>
          (todo p1 = todo p \<or>
           todo p1 = ts \<and> hasReminderBeenSent J (store w1) (getv (reminderOf t0) ''id'') (taskType t0))"
    proof (cases "stage p")
      case (Checked b)
      show ?thesis
      proof (cases b)
        case True
        with Checked 1(4) td rt show ?thesis
          by (auto simp: resumeTask_def agrees_def nextTask_stage nextTask_todo)
      next
        case False
        have "stage p1 \<noteq> Completed"
          using Checked False rt 1(3)
          by (auto simp: resumeTask_def sendReminder_def split: task.splits sum.splits)
        moreover have "stage p1 \<noteq> Sent False \<and> stage p1 \<noteq> Inserted \<and> todo p1 = todo p"
          using Checked False rt 1(3)
          by (auto simp: resumeTask_def sendReminder_def split: task.splits sum.splits)
        ultimately show ?thesis by simp
      qed
    next
      case Delay
      with rt show ?thesis by (auto simp: resumeTask_def)
    next
      case (Sent ok)
      with 1(5) have "ok" by (cases ok) auto
      with Sent rt show ?thesis by (auto simp: resumeTask_def)
    next
      case Inserting
      with rt td 1(2) show ?thesis by (auto simp: resumeTask_def has_after_record)
    next
      case Inserted
      with rt td 1(7) show ?thesis
        by (auto simp: resumeTask_def nextTask_stage nextTask_todo)
    next
      case Completed
      with False show ?thesis by (simp add: settled_def)
    next
      case (Threw x)
      with False show ?thesis by (simp add: settled_def)
    qed
    show ?thesis
    proof (cases "t \<in> set (todo p1)")
      case True
      from 1(1)[OF False r[symmetric] wf1 1(3) a1 _ _ _ c True] step show ?thesis
        by (simp add: f)
    next
      case False
      with step 1(9) td have "t = t0"
        and "hasReminderBeenSent J (store w1) (getv (reminderOf t0) ''id'') (taskType t0)" by auto
      with e1 show ?thesis by (simp add: f extends_has)
    qed
  qed
qed

lemma disabled_pass_records_due_pairs:
  assumes "wfDb (store w)" and "\<not> enableXMTP cfg"
    and "processReminders J cfg now w = (None, w', n')"
    and "r \<in> snd ` set (reminders (store w))"
    and "daysUntilExpiry J now r = Some i" and "i \<in> set (reminderIntervals cfg)"
  shows "hasReminderBeenSent J (store w') (getv r ''id'') (reminderTypeOf i)"
proof -
  let ?p = "startPass J cfg now w"
  have "Interval r i \<in> set (dueTasks J cfg now r)"
    using assms(5,6) by (simp add: dueTasks_def)
  with assms(4) have t: "Interval r i \<in> set (todo ?p)"
    by (auto simp: startPass_todo)
  define q where "q = \<lparr>instant = now, todo = concat (map (dueTasks J cfg now) (map snd (reminders (store w)))),
                           stage = Completed, processedCount = 0\<rparr>"
  have sp: "?p = nextTask J q w" by (simp add: startPass_eq q_def)
  have s: "stage ?p \<noteq> Sent False" "stage ?p = Completed \<longrightarrow> todo ?p = []"
    "stage ?p = Inserted \<longrightarrow>
       (\<forall>t ts. todo ?p = t # ts \<longrightarrow> hasReminderBeenSent J (store w) (getv (reminderOf t) ''id'') (taskType t))"
    unfolding sp using nextTask_stage[of J q w] by (simp_all add: nextTask_todo)
  obtain p1 w1 where f: "finishPass J cfg ?p w = (p1, w1)" by force
  with assms(3) have w1: "w1 = w'" and st: "stage p1 \<noteq> Threw e" for e
    by (auto simp: processReminders_def split: stage.splits)
  have "settled p1" using finishPass_settled[of J cfg ?p w] f by simp
  with st have c: "stage (fst (finishPass J cfg ?p w)) = Completed"
    using f by (cases "stage p1") (auto simp: settled_def)
  from finishPass_completed[OF assms(1,2) startPass_agrees s c t] f w1 show ?thesis by simp
qed

text \<open>A caller that waits between its calls does come to rest.\<close>

lemma runMoves_append:
  "runMoves J cfg (ms @ ms') s = (case runMoves J cfg ms s of None \<Rightarrow> None | Some s1 \<Rightarrow> runMoves J cfg ms' s1)"
  by (induction ms arbitrary: s) auto

lemma one_pass_runs:
  "list_all settled ps \<Longrightarrow>
   \<exists>ms. runMoves J cfg ms \<lparr>services = w, passes = ps @ [p], script = Idle # tail\<rparr> =
           Some \<lparr>services = snd (finishPass J cfg p w), passes = ps @ [fst (finishPass J cfg p w)], script = tail\<rparr>"
proof (induction J cfg p w rule: finishPass.induct)
  case (1 J cfg p w)
  let ?s = "\<lparr>services = w, passes = ps @ [p], script = Idle # tail\<rparr>"
  show ?case
  proof (cases "settled p")
    case True
    with 1(2) have all: "list_all settled (ps @ [p])" by simp
    have en: "enabled ?s = [Caller]" using all by (rule enabled_waiting(1))
    have "runMoves J cfg [Caller] ?s = Some \<lparr>services = w, passes = ps @ [p], script = tail\<rparr>"
      using en by simp
    with True show ?thesis by (auto simp: finishPass.simps[of J cfg p w] simp del: runMoves.simps)
  next
    case False
    have en: "enabled ?s = [Step (length ps)]" using 1(2) False by (rule enabled_running)
    obtain p' w' where r: "resume J cfg p w = (p', w')" by force
    from 1(1)[OF False r[symmetric] 1(2)] obtain ms where
      ms: "runMoves J cfg ms \<lparr>services = w', passes = ps @ [p'], script = Idle # tail\<rparr> =
             Some \<lparr>services = snd (finishPass J cfg p' w'), passes = ps @ [fst (finishPass J cfg p' w')], script = tail\<rparr>"
      by blast
    have "runMoves J cfg (Step (length ps) # ms) ?s =
            Some \<lparr>services = snd (finishPass J cfg p' w'), passes = ps @ [fst (finishPass J cfg p' w')], script = tail\<rparr>"
      using en r ms by simp
    then show ?thesis
      using False r by (auto simp: finishPass.simps[of J cfg p w] simp del: runMoves.simps)
  qed
qed

lemma inTurn_rests:
  "list_all settled ps \<Longrightarrow>
   \<exists>ms s'. runMoves J cfg ms \<lparr>services = w, passes = ps, script = inTurn nows\<rparr> = Some s' \<and> enabled s' = []"
proof (induction nows arbitrary: ps w)
  case Nil
  have "enabled \<lparr>services = w, passes = ps, script = []\<rparr> = []"
    using Nil by (rule enabled_waiting(3))
  then have "runMoves J cfg [] \<lparr>services = w, passes = ps, script = inTurn []\<rparr>
               = Some \<lparr>services = w, passes = ps, script = []\<rparr> \<and>
             enabled \<lparr>services = w, passes = ps, script = []\<rparr> = []"
    by (simp add: inTurn_def)
  then show ?case by blast
next
  case (Cons now rest)
  have sc: "inTurn (now # rest) = Call now # Idle # inTurn rest" by (simp add: inTurn_def)
  let ?s = "\<lparr>services = w, passes = ps, script = Call now # Idle # inTurn rest\<rparr>"
  let ?p = "startPass J cfg now w"
  let ?q = "fst (finishPass J cfg ?p w)" and ?w = "snd (finishPass J cfg ?p w)"
  have en: "enabled ?s = [Caller]" using Cons.prems by (rule enabled_waiting(2))
  have 1: "runMoves J cfg [Caller] ?s = Some \<lparr>services = w, passes = ps @ [?p], script = Idle # inTurn rest\<rparr>"
    using en by simp
  from one_pass_runs[OF Cons.prems, of J cfg w ?p "inTurn rest"] obtain ms2 where
    2: "runMoves J cfg ms2 \<lparr>services = w, passes = ps @ [?p], script = Idle # inTurn rest\<rparr> =
          Some \<lparr>services = ?w, passes = ps @ [?q], script = inTurn rest\<rparr>"
    by blast
  have "list_all settled (ps @ [?q])" using Cons.prems by (simp add: finishPass_settled)
  from Cons.IH[OF this, of ?w] obtain ms3 s' where
    3: "runMoves J cfg ms3 \<lparr>services = ?w, passes = ps @ [?q], script = inTurn rest\<rparr> = Some s'"
    and e: "enabled s' = []"
    by blast
  have "runMoves J cfg ([Caller] @ ms2 @ ms3) \<lparr>services = w, passes = ps, script = inTurn (now # rest)\<rparr> = Some s'"
    unfolding sc runMoves_append 1 using 2 3 by simp
  with e show ?case by blast
qed

section \<open>Properties of the record store\<close>

subsection \<open>Select\<close>

lemma schema_plain: "list_all plainColumn schemaColumns"
  by code_simp

lemma endsWith_append_le:
  "length s' \<le> length s \<Longrightarrow> endsWith (c @ s) s' = endsWith s s'"
  by (simp add: endsWith_def)

lemma endsWith_last: "endsWith x s \<Longrightarrow> s \<noteq> [] \<Longrightarrow> last x = last s"
  unfolding endsWith_def by (metis last_drop drop_eq_Nil not_le)

lemma endsWith_includes: "endsWith c s \<Longrightarrow> includesStr c s"
proof (induction c)
  case Nil
  then show ?case by (simp add: endsWith_def)
next
  case (Cons x xs)
  show ?case
  proof (cases "length s \<le> length xs")
    case True
    with Cons.prems have "endsWith xs s" by (simp add: endsWith_def Suc_diff_le)
    with Cons.IH show ?thesis by simp
  next
    case False
    with Cons.prems have "s = x # xs" by (simp add: endsWith_def)
    then show ?thesis by (simp add: startsWith_def)
  qed
qed

lemma overlap_free:
  "startsWith (u @ ''_neq'') ''_neq'' \<Longrightarrow> u = [] \<or> startsWith u ''_neq''"
  "startsWith (u @ ''_lt'') ''_lt'' \<Longrightarrow> u = [] \<or> startsWith u ''_lt''"
  "startsWith (u @ ''_lte'') ''_lte'' \<Longrightarrow> u = [] \<or> startsWith u ''_lte''"
  "startsWith (u @ ''_gt'') ''_gt'' \<Longrightarrow> u = [] \<or> startsWith u ''_gt''"
  "startsWith (u @ ''_gte'') ''_gte'' \<Longrightarrow> u = [] \<or> startsWith u ''_gte''"
  by (cases u; cases "tl u"; cases "tl (tl u)"; cases "tl (tl (tl u))"; auto simp: startsWith_def)+

lemma removeFirst_append:
  assumes "pat \<noteq> []" and "\<And>u. startsWith (u @ pat) pat \<Longrightarrow> u = [] \<or> startsWith u pat"
  shows "\<not> includesStr c pat \<Longrightarrow> removeFirst pat (c @ pat) = c"
proof (induction c)
  case Nil
  from assms(1) obtain p ps where "pat = p # ps" by (cases pat) auto
  then show ?case by (simp add: startsWith_def)
next
  case (Cons x xs)
  from Cons.prems have a: "\<not> startsWith (x # xs) pat" and b: "\<not> includesStr xs pat" by simp_all
  from a assms(2)[of "x # xs"] have "\<not> startsWith ((x # xs) @ pat) pat" by blast
  with Cons.IH[OF b] show ?case by simp
qed

lemma entryAccepts_plain:
  assumes "plainColumn c"
  shows "entryAccepts J r (c, v) = (getv r c = v)"
    and "entryAccepts J r (c @ ''_neq'', v) = (getv r c \<noteq> v)"
    and "entryAccepts J r (c @ ''_lt'', v) = js_lt J (getv r c) v"
    and "entryAccepts J r (c @ ''_lte'', v) = js_lte J (getv r c) v"
    and "entryAccepts J r (c @ ''_gt'', v) = js_gt J (getv r c) v"
    and "entryAccepts J r (c @ ''_gte'', v) = js_gte J (getv r c) v"
proof -
  from assms have n: "\<not> endsWith c ''_neq''" "\<not> endsWith c ''_lt''" "\<not> endsWith c ''_lte''"
    "\<not> endsWith c ''_gt''" "\<not> endsWith c ''_gte''"
    using endsWith_includes by (auto simp: plainColumn_def)
  then show "entryAccepts J r (c, v) = (getv r c = v)" by (simp add: entryAccepts_def)
  have same: "\<And>s. endsWith (c @ s) s" by (simp add: endsWith_def)
  have rm: "removeFirst ''_neq'' (c @ ''_neq'') = c" "removeFirst ''_lt'' (c @ ''_lt'') = c"
    "removeFirst ''_lte'' (c @ ''_lte'') = c" "removeFirst ''_gt'' (c @ ''_gt'') = c"
    "removeFirst ''_gte'' (c @ ''_gte'') = c"
    using assms by (simp_all add: plainColumn_def removeFirst_append overlap_free)
  have l1: "\<not> endsWith (c @ ''_lt'') ''_neq''" using endsWith_last[of "c @ ''_lt''" "''_neq''"] by auto
  have l2: "\<not> endsWith (c @ ''_gt'') ''_neq''" using endsWith_last[of "c @ ''_gt''" "''_neq''"] by auto
  have l3: "\<not> endsWith (c @ ''_gt'') ''_lte''" using endsWith_last[of "c @ ''_gt''" "''_lte''"] by auto
  have e: "\<not> endsWith (c @ ''_lte'') ''_neq''" "\<not> endsWith (c @ ''_lte'') ''_lt''"
    "\<not> endsWith (c @ ''_gt'') ''_lt''"
    "\<not> endsWith (c @ ''_gte'') ''_neq''" "\<not> endsWith (c @ ''_gte'') ''_lt''"
    "\<not> endsWith (c @ ''_gte'') ''_lte''" "\<not> endsWith (c @ ''_gte'') ''_gt''"
    by (simp_all add: endsWith_append_le) (simp_all add: endsWith_def)
  show "entryAccepts J r (c @ ''_neq'', v) = (getv r c \<noteq> v)"
    by (simp add: entryAccepts_def same rm)
  show "entryAccepts J r (c @ ''_lt'', v) = js_lt J (getv r c) v"
    by (simp add: entryAccepts_def same rm l1)
  show "entryAccepts J r (c @ ''_lte'', v) = js_lte J (getv r c) v"
    by (simp add: entryAccepts_def same rm e)
  show "entryAccepts J r (c @ ''_gt'', v) = js_gt J (getv r c) v"
    by (simp add: entryAccepts_def same rm l2 l3 e)
  show "entryAccepts J r (c @ ''_gte'', v) = js_gte J (getv r c) v"
    by (simp add: entryAccepts_def same rm e)
qed

lemma boundary:
  "v \<noteq> VUndefined \<Longrightarrow> \<not> js_lt J v v \<and> \<not> js_gt J v v \<and> js_lte J v v \<and> js_gte J v v"
  by (cases v) (auto simp: js_gt_def js_gte_def)


text \<open>
  C5, as the claim states it, fails on the chained call: the table holds a row with the
  wallet and the domain asked for, but the object that the first \<open>eq\<close> returns has no
  \<open>eq\<close>, so the second call throws instead of resolving to that row.
\<close>

theorem chained_eq_counterexample:
  "columnValues ''wallet_address'' (reminders (store exWorld)) = [VStr ''0xa''] \<and>
   columnValues ''domain'' (reminders (store exWorld)) = [VStr ''a.eth''] \<and>
   createSelectQuery exJs (store exWorld) ''reminders''
     [Eq ''wallet_address'' (VStr ''0xa''), Eq ''domain'' (VStr ''a.eth'')]
   = Inl (TypeError ''eq is not a function'')"
  by (simp add: columnValues_def exWorld_def exRow_def getv_def)

text \<open>
  C5, amended. For a known table and plain columns: a query with one equality predicate
  resolves to exactly the rows whose column has the value; \<open>executeSelect\<close> applies the
  entries of a filter object conjunctively, so a filter object with two equalities yields
  exactly the rows matching both (the query builder never produces such an object);
  \<open>lt\<close>, \<open>lte\<close>, \<open>gt\<close> and \<open>gte\<close> resolve to the rows in that relation to the boundary;
  and among the rows whose value equals a boundary other than \<open>undefined\<close>, \<open>lt\<close> and
  \<open>gt\<close> keep none while \<open>lte\<close> and \<open>gte\<close> keep all.
\<close>

theorem select_filters:
  assumes "tableRows d t = Some rows" and "plainColumn c" and "plainColumn c'"
  shows
   "createSelectQuery J d t [Eq c v] = Inr (Inr (filter (\<lambda>r. getv r c = v) (map snd rows))) \<and>
    executeSelect J d t [(c, v), (c', v')] =
      Inr (filter (\<lambda>r. getv r c = v \<and> getv r c' = v') (map snd rows)) \<and>
    createSelectQuery J d t [Lt c v] = Inr (Inr (filter (\<lambda>r. js_lt J (getv r c) v) (map snd rows))) \<and>
    createSelectQuery J d t [Lte c v] = Inr (Inr (filter (\<lambda>r. js_lte J (getv r c) v) (map snd rows))) \<and>
    createSelectQuery J d t [Gt c v] = Inr (Inr (filter (\<lambda>r. js_gt J (getv r c) v) (map snd rows))) \<and>
    createSelectQuery J d t [Gte c v] = Inr (Inr (filter (\<lambda>r. js_gte J (getv r c) v) (map snd rows))) \<and>
    (v \<noteq> VUndefined \<longrightarrow>
       filter (\<lambda>r. getv r c = v) (filter (\<lambda>r. js_lt J (getv r c) v) (map snd rows)) = [] \<and>
       filter (\<lambda>r. getv r c = v) (filter (\<lambda>r. js_gt J (getv r c) v) (map snd rows)) = [] \<and>
       filter (\<lambda>r. getv r c = v) (filter (\<lambda>r. js_lte J (getv r c) v) (map snd rows))
         = filter (\<lambda>r. getv r c = v) (map snd rows) \<and>
       filter (\<lambda>r. getv r c = v) (filter (\<lambda>r. js_gte J (getv r c) v) (map snd rows))
         = filter (\<lambda>r. getv r c = v) (map snd rows))"
proof -
  have b: "v \<noteq> VUndefined \<longrightarrow>
       filter (\<lambda>r. getv r c = v) (filter (\<lambda>r. js_lt J (getv r c) v) (map snd rows)) = [] \<and>
       filter (\<lambda>r. getv r c = v) (filter (\<lambda>r. js_gt J (getv r c) v) (map snd rows)) = [] \<and>
       filter (\<lambda>r. getv r c = v) (filter (\<lambda>r. js_lte J (getv r c) v) (map snd rows))
         = filter (\<lambda>r. getv r c = v) (map snd rows) \<and>
       filter (\<lambda>r. getv r c = v) (filter (\<lambda>r. js_gte J (getv r c) v) (map snd rows))
         = filter (\<lambda>r. getv r c = v) (map snd rows)"
    using boundary[of v J] by (auto simp: filter_empty_conv intro: filter_cong)
  show ?thesis
    using assms b
    by (simp add: executeSelect_def entryAccepts_plain)
qed


lemma plain_examples: "plainColumn ''expiry_date''" "plainColumn ''domain''" "plainColumn ''wallet_address''"
  by code_simp+

theorem select_filters_witness:
  "tableRows (store exWorld) ''reminders'' = Some (reminders (store exWorld)) \<and>
   plainColumn ''expiry_date'' \<and> plainColumn ''domain'' \<and> VNum (7 * oneDay) \<noteq> VUndefined \<and>
   createSelectQuery exJs (store exWorld) ''reminders'' [Lt ''expiry_date'' (VNum (7 * oneDay))] =
     Inr (Inr (filter (\<lambda>r. js_lt exJs (getv r ''expiry_date'') (VNum (7 * oneDay)))
                 (map snd (reminders (store exWorld))))) \<and>
   filter (\<lambda>r. getv r ''expiry_date'' = VNum (7 * oneDay))
     (filter (\<lambda>r. js_lt exJs (getv r ''expiry_date'') (VNum (7 * oneDay)))
        (map snd (reminders (store exWorld)))) = [] \<and>
   filter (\<lambda>r. getv r ''expiry_date'' = VNum (7 * oneDay))
     (filter (\<lambda>r. js_lte exJs (getv r ''expiry_date'') (VNum (7 * oneDay)))
        (map snd (reminders (store exWorld))))
     = filter (\<lambda>r. getv r ''expiry_date'' = VNum (7 * oneDay)) (map snd (reminders (store exWorld))) \<and>
   columnValues ''expiry_date'' (reminders (store exWorld)) = [VNum (7 * oneDay)]"
proof -
  have t: "tableRows (store exWorld) ''reminders'' = Some (reminders (store exWorld))"
    by (simp add: tableRows_def)
  have v: "VNum (7 * oneDay) \<noteq> VUndefined" by simp
  have c: "columnValues ''expiry_date'' (reminders (store exWorld)) = [VNum (7 * oneDay)]"
    by (simp add: columnValues_def exWorld_def exRow_def getv_def)
  note I = select_filters[OF t plain_examples(1) plain_examples(2),
      where J = exJs and v = "VNum (7 * oneDay)" and v' = VNull]
  note lt = I[THEN conjunct2, THEN conjunct2, THEN conjunct1]
  note B = I[THEN conjunct2, THEN conjunct2, THEN conjunct2, THEN conjunct2, THEN conjunct2,
      THEN conjunct2, THEN mp, OF v]
  note b1 = B[THEN conjunct1]
  note b3 = B[THEN conjunct2, THEN conjunct2, THEN conjunct1]
  show ?thesis
    by (intro conjI t plain_examples(1) plain_examples(2) v lt b1 b3 c)
qed

subsection \<open>Update\<close>

lemma updateEntries_eq:
  "updateEntries f fs t =
     (map (\<lambda>e. if matchesFilters (snd e) fs then (fst e, f (snd e)) else e) t,
      length (filter (\<lambda>e. matchesFilters (snd e) fs) t))"
  by (induction t) (auto simp: Let_def)

text \<open>
  C9, as the claim states it, fails outside the reminders table: an update of a delivery
  record patches the row and counts it, but stamps no update time.
\<close>

theorem update_stamp_counterexample:
  "fst (executeUpdate exJs 5 exSent ''sent_reminders'' [''message_id'' \<mapsto> VStr ''m''] [(''id'', VNum 1)]) = 1 \<and>
   columnValues ''message_id''
     (sentReminders (snd (executeUpdate exJs 5 exSent ''sent_reminders'' [''message_id'' \<mapsto> VStr ''m''] [(''id'', VNum 1)])))
     = [VStr ''m''] \<and>
   columnValues ''updated_at''
     (sentReminders (snd (executeUpdate exJs 5 exSent ''sent_reminders'' [''message_id'' \<mapsto> VStr ''m''] [(''id'', VNum 1)])))
     = [VUndefined]"
  by (simp add: executeUpdate_def exSent_def resetDb_def matchesFilters_def getv_def columnValues_def)

text \<open>
  C9, amended. For a known table, \<open>executeUpdate\<close> returns the number of rows that match
  the equality filters; the table afterwards has, under the same keys and in the same
  order, the patched row for every matching row and the old row for every other one; the
  other tables and all identity counters are as before. The patched row is the row
  overridden by the patch, with an update time stamped on it in the reminders table only.
\<close>

theorem update_patches_matching:
  assumes "tableRows d t = Some rows"
  shows
   "fst (executeUpdate J now d t patch fs) = length (filter (\<lambda>e. matchesFilters (snd e) fs) rows) \<and>
    tableRows (snd (executeUpdate J now d t patch fs)) t =
      Some (map (\<lambda>e. if matchesFilters (snd e) fs then (fst e, patchedRow J now t patch (snd e)) else e) rows) \<and>
    (\<forall>t'. t' \<noteq> t \<longrightarrow> tableRows (snd (executeUpdate J now d t patch fs)) t' = tableRows d t') \<and>
    (\<forall>t'. nextId (snd (executeUpdate J now d t patch fs)) t' = nextId d t')"
  using assms
  by (auto simp: executeUpdate_def tableRows_def nextId_def updateEntries_eq patchedRow_def
      split: if_splits)

theorem update_patches_matching_witness:
  "tableRows exSent ''sent_reminders'' = Some (sentReminders exSent) \<and>
   fst (executeUpdate exJs 5 exSent ''sent_reminders'' [''message_id'' \<mapsto> VStr ''m''] [(''id'', VNum 1)])
     = length (filter (\<lambda>e. matchesFilters (snd e) [(''id'', VNum 1)]) (sentReminders exSent)) \<and>
   length (filter (\<lambda>e. matchesFilters (snd e) [(''id'', VNum 1)]) (sentReminders exSent)) = 1"
proof -
  have t: "tableRows exSent ''sent_reminders'' = Some (sentReminders exSent)"
    by (simp add: tableRows_def)
  have l: "length (filter (\<lambda>e. matchesFilters (snd e) [(''id'', VNum 1)]) (sentReminders exSent)) = 1"
    by (simp add: matchesFilters_def getv_def exSent_def)
  note I = update_patches_matching[OF t, where J = exJs and now = 5
      and patch = "[''message_id'' \<mapsto> VStr ''m'']" and fs = "[(''id'', VNum 1)]"]
  show ?thesis
    by (intro conjI t I[THEN conjunct1] l)
qed

subsection \<open>Insert\<close>

lemma executeInsert_Many:
  "executeInsert J now d t (Many (r # rs)) = executeInsert J now d t (One r)"
  by (simp add: executeInsert_def)

lemma insert_reminders:
  "wfDb d \<Longrightarrow> executeInsert J now d ''reminders'' (One r) =
     (Inr (r(''id'' \<mapsto> VNum (nextId_reminders d),
             ''created_at'' \<mapsto> orNow J now (getv r ''created_at''),
             ''updated_at'' \<mapsto> VStr (toISOString J now))),
      d\<lparr>nextId_reminders := nextId_reminders d + 1,
        reminders := reminders d @
          [(nextId_reminders d,
            r(''id'' \<mapsto> VNum (nextId_reminders d),
              ''created_at'' \<mapsto> orNow J now (getv r ''created_at''),
              ''updated_at'' \<mapsto> VStr (toISOString J now)))]\<rparr>)"
  by (simp add: executeInsert_def Let_def wfDb_def wfTable_def mapSet_fresh)

lemma insert_sent_reminders:
  "wfDb d \<Longrightarrow> executeInsert J now d ''sent_reminders'' (One r) =
     (Inr (r(''id'' \<mapsto> VNum (nextId_sentReminders d))),
      d\<lparr>nextId_sentReminders := nextId_sentReminders d + 1,
        sentReminders := sentReminders d @
          [(nextId_sentReminders d, r(''id'' \<mapsto> VNum (nextId_sentReminders d)))]\<rparr>)"
  by (simp add: executeInsert_def Let_def wfDb_def wfTable_def mapSet_fresh)

lemma insert_conversations:
  "wfDb d \<Longrightarrow> executeInsert J now d ''conversations'' (One r) =
     (Inr (r(''id'' \<mapsto> VNum (nextId_conversations d),
             ''created_at'' \<mapsto> orNow J now (getv r ''created_at''))),
      d\<lparr>nextId_conversations := nextId_conversations d + 1,
        conversations := conversations d @
          [(nextId_conversations d,
            r(''id'' \<mapsto> VNum (nextId_conversations d),
              ''created_at'' \<mapsto> orNow J now (getv r ''created_at'')))]\<rparr>)"
  by (simp add: executeInsert_def Let_def wfDb_def wfTable_def mapSet_fresh)

lemma executeInsert_nextId:
  "nextId (snd (executeInsert J now d t' data)) t =
     (if t' = t \<and> knownTable t then nextId d t + 1 else nextId d t)"
  by (simp add: executeInsert_def nextId_def knownTable_def Let_def split: option.splits)

lemma executeUpdate_nextId: "nextId (snd (executeUpdate J now d t' patch fs)) t = nextId d t"
  by (simp add: executeUpdate_def nextId_def updateEntries_eq)

lemma executeDelete_nextId: "nextId (snd (executeDelete d t' fs)) t = nextId d t"
  by (simp add: executeDelete_def nextId_def split: prod.splits)

lemma executeInsert_id:
  "fst (executeInsert J now d t data) = Inr rec \<Longrightarrow> knownTable t \<and> getv rec ''id'' = VNum (nextId d t)"
  by (auto simp: executeInsert_def nextId_def knownTable_def Let_def getv_def
      split: option.splits if_splits)

lemma nextId_applyOp: "nextId d t \<le> nextId (applyOp J now op d) t"
  by (cases op) (simp_all add: executeInsert_nextId executeUpdate_nextId executeDelete_nextId)

lemma assignedId_bounds:
  assumes "i \<in> set (assignedId J now t op d)"
  shows "nextId d t \<le> i \<and> i < nextId (applyOp J now op d) t"
proof (cases op)
  case (Insert t' data)
  show ?thesis
  proof (cases "fst (executeInsert J now d t' data)")
    case (Inl e)
    have "assignedId J now t op d = []" using Inl by (auto simp: Insert)
    with assms show ?thesis by simp
  next
    case (Inr rec)
    from executeInsert_id[OF Inr] have k: "knownTable t'" and g: "getv rec ''id'' = VNum (nextId d t')"
      by simp_all
    have "assignedId J now t op d = (if t' = t then [nextId d t'] else [])"
      using Inr g by (auto simp: Insert)
    with assms have "t' = t" "i = nextId d t" by (auto split: if_splits)
    with k show ?thesis by (simp add: Insert executeInsert_nextId)
  qed
next
  case (Update t' patch fs)
  with assms show ?thesis by simp
next
  case (Delete t' fs)
  with assms show ?thesis by simp
qed

lemma assignedId_short: "length (assignedId J now t op d) \<le> 1"
  by (cases op) (auto split: sum.splits val.splits)

lemma assignedIds_increasing:
  "sorted_wrt (<) (assignedIds J t ops d) \<and> list_all (\<lambda>i. nextId d t \<le> i) (assignedIds J t ops d)"
proof (induction ops arbitrary: d)
  case Nil
  show ?case by simp
next
  case (Cons a ops)
  obtain now op where a: "a = (now, op)" by force
  let ?d1 = "applyOp J now op d"
  have ih: "sorted_wrt (<) (assignedIds J t ops ?d1)"
    "list_all (\<lambda>i. nextId ?d1 t \<le> i) (assignedIds J t ops ?d1)"
    using Cons.IH[of ?d1] by simp_all
  have s1: "sorted_wrt (<) (assignedId J now t op d)"
    using assignedId_short[of J now t op d]
    by (cases "assignedId J now t op d") auto
  have lt: "\<forall>i\<in>set (assignedId J now t op d). \<forall>j\<in>set (assignedIds J t ops ?d1). i < j"
    using assignedId_bounds[of _ J now t op d] ih(2) by (fastforce simp: list_all_iff)
  have ge: "list_all (\<lambda>i. nextId d t \<le> i) (assignedIds J t ops ?d1)"
    using ih(2) nextId_applyOp[of d t J now op] by (auto simp: list_all_iff)
  have ge1: "list_all (\<lambda>i. nextId d t \<le> i) (assignedId J now t op d)"
    using assignedId_bounds[of _ J now t op d] by (auto simp: list_all_iff)
  show ?case using ih(1) s1 lt ge ge1 by (simp add: a sorted_wrt_append)
qed

text \<open>
  C7, as the claim states it, fails for the delivery records: a row inserted there without
  a creation time is stored without one.
\<close>

theorem insert_stamp_counterexample:
  "resultField ''reminder_id''
     (fst (executeInsert exJs 5 resetDb ''sent_reminders'' (One [''reminder_id'' \<mapsto> VNum 1]))) = Some (VNum 1) \<and>
   resultField ''created_at''
     (fst (executeInsert exJs 5 resetDb ''sent_reminders'' (One [''reminder_id'' \<mapsto> VNum 1]))) = Some VUndefined"
  by (simp add: executeInsert_def resultField_def getv_def Let_def)

lemma insert_known:
  assumes "knownTable t" and "wfDb d" and "tableRows d t = Some rows"
  shows "\<exists>rec d'. executeInsert J now d t (One r) = (Inr rec, d') \<and>
        getv rec ''id'' = VNum (nextId d t) \<and>
        list_all (\<lambda>e. fst e < nextId d t) rows \<and>
        tableRows d' t = Some (rows @ [(nextId d t, rec)]) \<and>
        nextId d' t = nextId d t + 1 \<and> wfDb d' \<and>
        (t \<noteq> ''sent_reminders'' \<longrightarrow>
           getv rec ''created_at'' =
             (if truthy (getv r ''created_at'') then getv r ''created_at'' else VStr (toISOString J now))) \<and>
        (\<forall>k. k \<noteq> ''id'' \<and> k \<noteq> ''created_at'' \<and> k \<noteq> ''updated_at'' \<longrightarrow> getv rec k = getv r k)"
proof -
  from assms(1) consider "t = ''reminders''" | "t = ''sent_reminders''" | "t = ''conversations''"
    by (auto simp: knownTable_def)
  then show ?thesis
  proof cases
    case 1
    from assms(2,3) have w: "list_all (\<lambda>e. fst e < nextId_reminders d) rows" "reminders d = rows"
      "list_all (\<lambda>e. fst e < nextId_sentReminders d) (sentReminders d)"
      "list_all (\<lambda>e. fst e < nextId_conversations d) (conversations d)"
      "distinct (map fst (reminders d))" "distinct (map fst (sentReminders d))"
      "distinct (map fst (conversations d))"
      by (auto simp: 1 wfDb_def wfTable_def tableRows_def)
    show ?thesis unfolding 1 insert_reminders[OF assms(2)]
      using w by (auto simp add: tableRows_def nextId_def wfDb_def wfTable_def getv_def orNow_def list_all_iff
          intro: less_imp_le)
  next
    case 2
    from assms(2,3) have w: "list_all (\<lambda>e. fst e < nextId_sentReminders d) rows" "sentReminders d = rows"
      "list_all (\<lambda>e. fst e < nextId_reminders d) (reminders d)"
      "list_all (\<lambda>e. fst e < nextId_conversations d) (conversations d)"
      "distinct (map fst (reminders d))" "distinct (map fst (sentReminders d))"
      "distinct (map fst (conversations d))"
      by (auto simp: 2 wfDb_def wfTable_def tableRows_def)
    show ?thesis unfolding 2 insert_sent_reminders[OF assms(2)]
      using w by (auto simp add: tableRows_def nextId_def wfDb_def wfTable_def getv_def list_all_iff
          intro: less_imp_le)
  next
    case 3
    from assms(2,3) have w: "list_all (\<lambda>e. fst e < nextId_conversations d) rows" "conversations d = rows"
      "list_all (\<lambda>e. fst e < nextId_reminders d) (reminders d)"
      "list_all (\<lambda>e. fst e < nextId_sentReminders d) (sentReminders d)"
      "distinct (map fst (reminders d))" "distinct (map fst (sentReminders d))"
      "distinct (map fst (conversations d))"
      by (auto simp: 3 wfDb_def wfTable_def tableRows_def)
    show ?thesis unfolding 3 insert_conversations[OF assms(2)]
      using w by (auto simp add: tableRows_def nextId_def wfDb_def wfTable_def getv_def orNow_def list_all_iff
          intro: less_imp_le)
  qed
qed

text \<open>
  C7, amended. In a well-formed store, inserting a row (or an array that starts with it)
  into a known table succeeds: the returned row carries the table's next identity, which
  lies above every key of the table; the table afterwards is the old one followed by the
  returned row under that identity; the counter has advanced by one. In the reminders and
  conversations tables the row keeps a creation time it brings and gets the current time
  otherwise; in the delivery records no creation time is stamped. Along any history of
  inserts, updates and deletes the identities handed out in one table increase strictly.
  An unknown table name gives the error result and leaves the store alone.
\<close>

theorem insert_assigns_identity:
  assumes "knownTable t" and "wfDb d" and "tableRows d t = Some rows"
  shows
   "(\<exists>rec d'. executeInsert J now d t (One r) = (Inr rec, d') \<and>
        getv rec ''id'' = VNum (nextId d t) \<and>
        list_all (\<lambda>e. fst e < nextId d t) rows \<and>
        tableRows d' t = Some (rows @ [(nextId d t, rec)]) \<and>
        nextId d' t = nextId d t + 1 \<and> wfDb d' \<and>
        (t \<noteq> ''sent_reminders'' \<longrightarrow>
           getv rec ''created_at'' =
             (if truthy (getv r ''created_at'') then getv r ''created_at'' else VStr (toISOString J now))) \<and>
        (\<forall>k. k \<noteq> ''id'' \<and> k \<noteq> ''created_at'' \<and> k \<noteq> ''updated_at'' \<longrightarrow> getv rec k = getv r k)) \<and>
    executeInsert J now d t (Many (r # rs)) = executeInsert J now d t (One r) \<and>
    sorted_wrt (<) (assignedIds J t ops d) \<and>
    list_all (\<lambda>i. nextId d t \<le> i) (assignedIds J t ops d) \<and>
    (\<not> knownTable t' \<longrightarrow> executeInsert J now d t' data = (Inl (UnknownTable t'), d))"
proof -
  have u: "\<not> knownTable t' \<longrightarrow> executeInsert J now d t' data = (Inl (UnknownTable t'), d)"
    by (simp add: knownTable_def executeInsert_def)
  from u insert_known[OF assms, of J now r] assignedIds_increasing[of J t ops d]
    executeInsert_Many[of J now d t r rs]
  show ?thesis by blast
qed


lemma wfDb_reset: "wfDb resetDb"
  by (simp add: wfDb_def wfTable_def resetDb_def)

theorem insert_assigns_identity_witness:
  "knownTable ''reminders'' \<and> wfDb resetDb \<and> tableRows resetDb ''reminders'' = Some (reminders resetDb) \<and>
   sorted_wrt (<) (assignedIds exJs ''reminders'' exOps resetDb) \<and>
   assignedIds exJs ''reminders'' exOps resetDb = [1, 2] \<and>
   executeInsert exJs 0 resetDb ''no_such_table'' (One Map.empty) = (Inl (UnknownTable ''no_such_table''), resetDb)"
proof -
  have k: "knownTable ''reminders''" by (simp add: knownTable_def)
  have n: "\<not> knownTable ''no_such_table''" by (simp add: knownTable_def)
  have t: "tableRows resetDb ''reminders'' = Some (reminders resetDb)" by (simp add: tableRows_def)
  have e: "assignedIds exJs ''reminders'' exOps resetDb = [1, 2]" by code_simp
  note I = insert_assigns_identity[OF k wfDb_reset t,
      where J = exJs and ops = exOps and t' = "''no_such_table''" and now = 0 and data = "One Map.empty"]
  note s = I[THEN conjunct2, THEN conjunct2, THEN conjunct1]
  note u = I[THEN conjunct2, THEN conjunct2, THEN conjunct2, THEN conjunct2, THEN mp, OF n]
  show ?thesis
    by (intro conjI k wfDb_reset t s e u)
qed

subsection \<open>Well-formed stores\<close>

text \<open>On a table with distinct keys, rewriting the matching entries in place is what the
  loop of \<open>executeUpdate\<close> does with \<open>set(id, ...)\<close> on each matching entry.\<close>

lemma mapSet_middle:
  "k \<notin> fst ` set p \<Longrightarrow> mapSet k v (p @ (k, r) # t) = p @ (k, v) # t"
  by (induction p) auto

lemma updateEntries_by_key:
  "distinct (map fst (p @ t)) \<Longrightarrow>
   fold (\<lambda>e acc. if matchesFilters (snd e) fs then mapSet (fst e) (f (snd e)) acc else acc) t (p @ t)
     = p @ fst (updateEntries f fs t)"
proof (induction t arbitrary: p)
  case Nil
  show ?case by simp
next
  case (Cons e t)
  obtain k r where e: "e = (k, r)" by force
  from Cons.prems have notin: "k \<notin> fst ` set p" by (auto simp: e)
  from Cons.prems have d1: "distinct (map fst ((p @ [(k, f r)]) @ t))" by (auto simp: e)
  from Cons.prems have d2: "distinct (map fst ((p @ [(k, r)]) @ t))" by (auto simp: e)
  show ?case
  proof (cases "matchesFilters r fs")
    case True
    with Cons.IH[OF d1] notin show ?thesis
      by (simp add: e mapSet_middle split: prod.splits)
  next
    case False
    with Cons.IH[OF d2] show ?thesis by (simp add: e split: prod.splits)
  qed
qed

lemma updateEntries_is_loop:
  "distinct (map fst t) \<Longrightarrow>
   fst (updateEntries f fs t) =
     fold (\<lambda>e acc. if matchesFilters (snd e) fs then mapSet (fst e) (f (snd e)) acc else acc) t t"
  using updateEntries_by_key[of "[]" t fs f] by simp

text \<open>Every store operation keeps the store well formed, and the constructor's seed is
  well formed.\<close>

lemma wfTable_append: "wfTable n t \<Longrightarrow> wfTable (n + 1) (t @ [(n, v)])"
  by (auto simp: wfTable_def list_all_iff)

lemma wfTable_mono: "wfTable n t \<Longrightarrow> n \<le> m \<Longrightarrow> wfTable m t"
  by (auto simp: wfTable_def list_all_iff)

lemma wfTable_keys: "map fst t' = map fst t \<Longrightarrow> wfTable n t' = wfTable n t"
proof -
  assume k: "map fst t' = map fst t"
  then have "set (map fst t') = set (map fst t)" by simp
  then have "(\<forall>e\<in>set t'. fst e < n) = (\<forall>e\<in>set t. fst e < n)"
    unfolding set_map by (metis (no_types, lifting) image_iff)
  with k show ?thesis by (simp add: wfTable_def list_all_iff)
qed

lemma updateEntries_keys: "map fst (fst (updateEntries f fs t)) = map fst t"
  by (induction t) (auto simp: Let_def split: prod.splits)

lemma wfTable_update: "wfTable n t \<Longrightarrow> wfTable n (fst (updateEntries f fs t))"
  using wfTable_keys[OF updateEntries_keys] by simp

lemma deleteEntries_eq:
  "deleteEntries fs t =
     (filter (\<lambda>e. \<not> matchesFilters (snd e) fs) t, length (filter (\<lambda>e. matchesFilters (snd e) fs) t))"
  by (induction t) (auto simp: Let_def)

lemma wfTable_delete: "wfTable n t \<Longrightarrow> wfTable n (fst (deleteEntries fs t))"
  by (auto simp: wfTable_def deleteEntries_eq list_all_iff distinct_map_filter)

lemma wfTable_mapSet: "wfTable n t \<Longrightarrow> wfTable (n + 1) (mapSet n v t)"
  using mapSet_fresh[of n t v] wfTable_append[of n t v] by (simp add: wfTable_def)

lemma wfTable_suc: "wfTable n t \<Longrightarrow> wfTable (n + 1) t"
  by (erule wfTable_mono) simp

lemma wfDb_insert: "wfDb d \<Longrightarrow> wfDb (snd (executeInsert J now d t data))"
  by (simp add: executeInsert_def wfDb_def Let_def wfTable_mapSet wfTable_suc split: option.splits)

lemma wfDb_update: "wfDb d \<Longrightarrow> wfDb (snd (executeUpdate J now d t patch fs))"
  by (simp add: executeUpdate_def wfDb_def case_prod_beta wfTable_update)

lemma wfDb_delete: "wfDb d \<Longrightarrow> wfDb (snd (executeDelete d t fs))"
  by (simp add: executeDelete_def wfDb_def case_prod_beta wfTable_delete)

lemma wfDb_applyOp: "wfDb d \<Longrightarrow> wfDb (applyOp J now op d)"
  by (cases op) (simp_all add: wfDb_insert wfDb_update wfDb_delete)

lemma wfDb_seed: "wfDb (seedTestData J now resetDb)"
  by (simp add: seedTestData_def resetDb_def wfDb_def wfTable_def)

text \<open>An empty array is not a row: in the reminders table reading \<open>created_at\<close> of its
  missing first element throws, which the \<open>catch\<close> returns as an error result, with the
  identity counter already advanced.\<close>

lemma insert_empty_array:
  "executeInsert J now d ''reminders'' (Many []) =
     (Inl (Caught (TypeError ''Cannot read properties of undefined'')),
      d\<lparr>nextId_reminders := nextId_reminders d + 1\<rparr>)"
  by (simp add: executeInsert_def)


section \<open>Properties of the message rendering\<close>

lemma numberToString_digit: "0 \<le> d \<Longrightarrow> d < 10 \<Longrightarrow> numberToString d = [char_of (nat d + 48)]"
  by (simp add: numberToString_def add.commute)

lemma numberToString_split:
  assumes "10 \<le> d"
  shows "numberToString d = numberToString (d div 10) @ numberToString (d mod 10)"
proof -
  have a: "nat (d div 10) = nat d div 10" using assms by (simp add: nat_div_distrib)
  have b: "nat (d mod 10) = nat d mod 10" using assms by (simp add: nat_mod_distrib)
  have c: "\<not> nat d < 10" using assms by simp
  have n: "\<not> d < 0" "\<not> d div 10 < 0" "\<not> d mod 10 < 0" using assms by simp_all
  have 1: "digits (nat d) = digits (nat d div 10) @ [char_of (48 + nat d mod 10)]"
    using c digits.simps[of "nat d"] by (simp del: digits.simps)
  have 2: "digits (nat d mod 10) = [char_of (48 + nat d mod 10)]"
    using digits.simps[of "nat d mod 10"] by (simp del: digits.simps)
  show ?thesis using n 1 2 by (simp add: numberToString_def a b del: digits.simps)
qed

lemma tier_prefix:
  "take 10 (createReminderMessage domain d) =
     (if d \<le> 0 then [CHR 0xC3, CHR 0xB0, CHR 0xC5, CHR 0xB8, CHR 0xC5, CHR 0xA1, CHR 0xC2, CHR 0xA8] @ '' U''
      else if d = 1 then [CHR 0xC3, CHR 0xB0, CHR 0xC5, CHR 0xB8, CHR 0xC5, CHR 0xA1, CHR 0xC2, CHR 0xA8] @ '' F''
      else if d \<le> 7 then [CHR 0xC3, CHR 0xA2, CHR 0xC5, CHR 0xA1, CHR 0xC2, CHR 0xA1] @ '' URG''
      else if d \<le> 30 then [CHR 0xC3, CHR 0xA2, CHR 0xC2, CHR 0xB0] @ '' Remin''
      else [CHR 0xC3, CHR 0xB0, CHR 0xC5, CHR 0xB8, CHR 0xE2, CHR 0x80, CHR 0x9C, CHR 0xE2, CHR 0x80, CHR 0xA6])"
  by (simp add: createReminderMessage_def)

lemma tiers_differ:
  assumes "(d \<le> 0) \<noteq> (d' \<le> 0) \<or> (d = 1) \<noteq> (d' = 1) \<or> (d \<le> 7) \<noteq> (d' \<le> 7) \<or> (d \<le> 30) \<noteq> (d' \<le> 30)"
  shows "createReminderMessage domain d \<noteq> createReminderMessage domain' d'"
proof
  assume "createReminderMessage domain d = createReminderMessage domain' d'"
  then have "take 10 (createReminderMessage domain d) = take 10 (createReminderMessage domain' d')"
    by simp
  with assms show False
    unfolding tier_prefix by (auto split: if_splits)
qed

text \<open>
  C8. \<open>createReminderMessage\<close> is a function of the name and the days remaining. The
  text it returns is that of the tier the days fall in, with the name in double quotes
  and, in the last three tiers, the days in decimal: expired up to 0, due tomorrow at 1,
  due within a week from 2 to 7, due within a month from 8 to 30, due later above 30.
  Two renderings whose days lie on different sides of one of the boundaries differ,
  whatever the names, so the text tells the tier.
\<close>

theorem message_tiers:
  "(d \<le> 0 \<longrightarrow>
      createReminderMessage domain d =
         [CHR 0xC3, CHR 0xB0, CHR 0xC5, CHR 0xB8, CHR 0xC5, CHR 0xA1, CHR 0xC2, CHR 0xA8] @
         '' URGENT: Your ENS domain '' @ [CHR 0x22] @ domain @ [CHR 0x22] @
         '' has expired! You may still be able to renew it during the grace period. Act quickly to avoid losing your domain.'') \<and>
   (d = 1 \<longrightarrow>
      createReminderMessage domain d =
         [CHR 0xC3, CHR 0xB0, CHR 0xC5, CHR 0xB8, CHR 0xC5, CHR 0xA1, CHR 0xC2, CHR 0xA8] @
         '' FINAL NOTICE: Your ENS domain '' @ [CHR 0x22] @ domain @ [CHR 0x22] @
         '' expires TOMORROW! Please renew it immediately to avoid losing your domain.'') \<and>
   (2 \<le> d \<and> d \<le> 7 \<longrightarrow>
      createReminderMessage domain d =
         [CHR 0xC3, CHR 0xA2, CHR 0xC5, CHR 0xA1, CHR 0xC2, CHR 0xA1] @
         '' URGENT: Your ENS domain '' @ [CHR 0x22] @ domain @ [CHR 0x22] @ '' expires in '' @ numberToString d @
         '' days! Please renew it soon to avoid losing your domain.'') \<and>
   (8 \<le> d \<and> d \<le> 30 \<longrightarrow>
      createReminderMessage domain d =
         [CHR 0xC3, CHR 0xA2, CHR 0xC2, CHR 0xB0] @
         '' Reminder: Your ENS domain '' @ [CHR 0x22] @ domain @ [CHR 0x22] @ '' expires in '' @ numberToString d @
         '' days. Consider renewing it to ensure you don'' @ [CHR 0x27] @ ''t lose your domain.'') \<and>
   (30 < d \<longrightarrow>
      createReminderMessage domain d =
         [CHR 0xC3, CHR 0xB0, CHR 0xC5, CHR 0xB8, CHR 0xE2, CHR 0x80, CHR 0x9C, CHR 0xE2, CHR 0x80, CHR 0xA6] @
         '' Reminder: Your ENS domain '' @ [CHR 0x22] @ domain @ [CHR 0x22] @ '' expires in '' @ numberToString d @
         '' days. You have plenty of time, but it'' @ [CHR 0x27] @ ''s good to keep track!'') \<and>
   (0 \<le> d \<and> d < 10 \<longrightarrow> numberToString d = [char_of (nat d + 48)]) \<and>
   (10 \<le> d \<longrightarrow> numberToString d = numberToString (d div 10) @ numberToString (d mod 10)) \<and>
   ((d \<le> 0) \<noteq> (d' \<le> 0) \<or> (d = 1) \<noteq> (d' = 1) \<or> (d \<le> 7) \<noteq> (d' \<le> 7) \<or> (d \<le> 30) \<noteq> (d' \<le> 30) \<longrightarrow>
      createReminderMessage domain d \<noteq> createReminderMessage domain' d')"
proof -
  have 1: "d \<le> 0 \<longrightarrow>
      createReminderMessage domain d =
         [CHR 0xC3, CHR 0xB0, CHR 0xC5, CHR 0xB8, CHR 0xC5, CHR 0xA1, CHR 0xC2, CHR 0xA8] @
         '' URGENT: Your ENS domain '' @ [CHR 0x22] @ domain @ [CHR 0x22] @
         '' has expired! You may still be able to renew it during the grace period. Act quickly to avoid losing your domain.''"
    by (simp add: createReminderMessage_def)
  have 2: "d = 1 \<longrightarrow>
      createReminderMessage domain d =
         [CHR 0xC3, CHR 0xB0, CHR 0xC5, CHR 0xB8, CHR 0xC5, CHR 0xA1, CHR 0xC2, CHR 0xA8] @
         '' FINAL NOTICE: Your ENS domain '' @ [CHR 0x22] @ domain @ [CHR 0x22] @
         '' expires TOMORROW! Please renew it immediately to avoid losing your domain.''"
    by (simp add: createReminderMessage_def)
  have 3: "2 \<le> d \<and> d \<le> 7 \<longrightarrow>
      createReminderMessage domain d =
         [CHR 0xC3, CHR 0xA2, CHR 0xC5, CHR 0xA1, CHR 0xC2, CHR 0xA1] @
         '' URGENT: Your ENS domain '' @ [CHR 0x22] @ domain @ [CHR 0x22] @ '' expires in '' @ numberToString d @
         '' days! Please renew it soon to avoid losing your domain.''"
    by (simp add: createReminderMessage_def)
  have 4: "8 \<le> d \<and> d \<le> 30 \<longrightarrow>
      createReminderMessage domain d =
         [CHR 0xC3, CHR 0xA2, CHR 0xC2, CHR 0xB0] @
         '' Reminder: Your ENS domain '' @ [CHR 0x22] @ domain @ [CHR 0x22] @ '' expires in '' @ numberToString d @
         '' days. Consider renewing it to ensure you don'' @ [CHR 0x27] @ ''t lose your domain.''"
    by (simp add: createReminderMessage_def)
  have 5: "30 < d \<longrightarrow>
      createReminderMessage domain d =
         [CHR 0xC3, CHR 0xB0, CHR 0xC5, CHR 0xB8, CHR 0xE2, CHR 0x80, CHR 0x9C, CHR 0xE2, CHR 0x80, CHR 0xA6] @
         '' Reminder: Your ENS domain '' @ [CHR 0x22] @ domain @ [CHR 0x22] @ '' expires in '' @ numberToString d @
         '' days. You have plenty of time, but it'' @ [CHR 0x27] @ ''s good to keep track!''"
    by (simp add: createReminderMessage_def)
  have 6: "0 \<le> d \<and> d < 10 \<longrightarrow> numberToString d = [char_of (nat d + 48)]"
    by (simp add: numberToString_digit)
  have 7: "10 \<le> d \<longrightarrow> numberToString d = numberToString (d div 10) @ numberToString (d mod 10)"
    by (simp add: numberToString_split)
  have 8: "(d \<le> 0) \<noteq> (d' \<le> 0) \<or> (d = 1) \<noteq> (d' = 1) \<or> (d \<le> 7) \<noteq> (d' \<le> 7) \<or> (d \<le> 30) \<noteq> (d' \<le> 30) \<longrightarrow>
      createReminderMessage domain d \<noteq> createReminderMessage domain' d'"
    using tiers_differ[of d d' domain domain'] by blast
  show ?thesis by (intro conjI 1 2 3 4 5 6 7 8)
qed

text \<open>The reminder for \<open>a.eth\<close> at 7 days and at 30 days, letter by letter.\<close>

theorem message_tiers_witness:
  "(2 :: int) \<le> 7 \<and> (7 :: int) \<le> 7 \<and>
   createReminderMessage ''a.eth'' 7 =
     [CHR 0xC3, CHR 0xA2, CHR 0xC5, CHR 0xA1, CHR 0xC2, CHR 0xA1] @
     '' URGENT: Your ENS domain '' @ [CHR 0x22] @ ''a.eth'' @ [CHR 0x22] @
     '' expires in 7 days! Please renew it soon to avoid losing your domain.'' \<and>
   createReminderMessage ''a.eth'' 30 =
     [CHR 0xC3, CHR 0xA2, CHR 0xC2, CHR 0xB0] @
     '' Reminder: Your ENS domain '' @ [CHR 0x22] @ ''a.eth'' @ [CHR 0x22] @
     '' expires in 30 days. Consider renewing it to ensure you don'' @ [CHR 0x27] @ ''t lose your domain.'' \<and>
   createReminderMessage ''a.eth'' 7 \<noteq> createReminderMessage ''a.eth'' 8"
proof -
  have a1: "(2 :: int) \<le> 7" and a2: "(7 :: int) \<le> 7" by simp_all
  have b: "(8 :: int) \<le> 30 \<and> (30 :: int) \<le> 30" by simp
  have c: "char_of (55 :: nat) = CHR ''7''" "char_of (48 :: nat) = CHR ''0''" "char_of (51 :: nat) = CHR ''3''"
    by code_simp+
  have n7: "numberToString 7 = ''7''"
    using c message_tiers[of 7, THEN conjunct2, THEN conjunct2, THEN conjunct2, THEN conjunct2, THEN conjunct2,
        THEN conjunct1]
    by simp
  have n0: "numberToString 0 = ''0''" and n3: "numberToString 3 = ''3''"
    using c message_tiers[of 0, THEN conjunct2, THEN conjunct2, THEN conjunct2, THEN conjunct2, THEN conjunct2,
        THEN conjunct1]
      message_tiers[of 3, THEN conjunct2, THEN conjunct2, THEN conjunct2, THEN conjunct2, THEN conjunct2,
        THEN conjunct1]
    by simp_all
  have n30: "numberToString 30 = ''30''"
    using message_tiers[of 30, THEN conjunct2, THEN conjunct2, THEN conjunct2, THEN conjunct2, THEN conjunct2,
        THEN conjunct2, THEN conjunct1] n0 n3
    by simp
  have w7: "createReminderMessage ''a.eth'' 7 =
     [CHR 0xC3, CHR 0xA2, CHR 0xC5, CHR 0xA1, CHR 0xC2, CHR 0xA1] @
     '' URGENT: Your ENS domain '' @ [CHR 0x22] @ ''a.eth'' @ [CHR 0x22] @
     '' expires in 7 days! Please renew it soon to avoid losing your domain.''"
    using message_tiers[of 7 "''a.eth''", THEN conjunct2, THEN conjunct2, THEN conjunct1, THEN mp,
        OF conjI[OF a1 a2]] n7
    by simp
  have w30: "createReminderMessage ''a.eth'' 30 =
     [CHR 0xC3, CHR 0xA2, CHR 0xC2, CHR 0xB0] @
     '' Reminder: Your ENS domain '' @ [CHR 0x22] @ ''a.eth'' @ [CHR 0x22] @
     '' expires in 30 days. Consider renewing it to ensure you don'' @ [CHR 0x27] @ ''t lose your domain.''"
    using message_tiers[of 30 "''a.eth''", THEN conjunct2, THEN conjunct2, THEN conjunct2, THEN conjunct1, THEN mp,
        OF b] n30
    by simp
  have k: "((7 :: int) \<le> 0) \<noteq> ((8 :: int) \<le> 0) \<or> ((7 :: int) = 1) \<noteq> ((8 :: int) = 1) \<or>
           ((7 :: int) \<le> 7) \<noteq> ((8 :: int) \<le> 7) \<or> ((7 :: int) \<le> 30) \<noteq> ((8 :: int) \<le> 30)"
    by simp
  have ne: "createReminderMessage ''a.eth'' 7 \<noteq> createReminderMessage ''a.eth'' 8"
    using message_tiers[of 7 "''a.eth''" 8 "''a.eth''", THEN conjunct2, THEN conjunct2, THEN conjunct2,
        THEN conjunct2, THEN conjunct2, THEN conjunct2, THEN conjunct2, THEN mp, OF k] .
  show ?thesis by (intro conjI a1 a2 w7 w30 ne)
qed

section \<open>Properties of the scheduler\<close>

lemma cronInv_new: "cronInv newCron"
  by (simp add: cronInv_def newCron_def)

lemma set_mapSet: "set (mapSet k v t) \<subseteq> insert (k, v) (set t)"
  by (induction t) (auto split: if_splits)

lemma distinct_count_le: "distinct xs \<Longrightarrow> count_list xs a \<le> 1"
  by (induction xs) auto

lemma cronInv_schedule: "cronInv s \<Longrightarrow> cronInv (scheduleJob now i e s)"
  using set_mapSet[of i "length (objects s)" "jobs s"]
  by (fastforce simp: cronInv_def scheduleJob_def Let_def nth_append less_Suc_eq)

lemma cronInv_execute: "cronInv s \<Longrightarrow> cronInv (executeJob now a s)"
  by (auto simp: cronInv_def executeJob_def Let_def nth_list_update)

lemma cronInv_settle: "cronInv s \<Longrightarrow> cronInv (settleJob now a res s)"
  by (auto simp: cronInv_def settleJob_def Let_def nth_list_update split: callback_result.splits)

lemma cronInv_fold:
  assumes "\<And>a s. cronInv s \<Longrightarrow> cronInv (f a s)"
  shows "cronInv s \<Longrightarrow> cronInv (fold f as s)"
  by (induction as arbitrary: s) (auto simp: assms)

lemma cronInv_step:
  assumes "cronInv s"
  shows "cronInv (step now e s)"
proof (cases e)
  case (Schedule i x)
  with assms show ?thesis by (simp add: cronInv_schedule)
next
  case (Timeout i a)
  with assms show ?thesis by (simp add: immediateTimeout_def cronInv_execute)
next
  case Start
  with assms show ?thesis by (simp add: cronInv_def)
next
  case Stop
  with assms show ?thesis by (simp add: cronInv_def)
next
  case Tick
  with assms show ?thesis by (simp add: checkAndRunJobs_def cronInv_fold cronInv_execute)
next
  case (TriggerJob x)
  with assms show ?thesis
    by (auto simp: triggerJob_def cronInv_execute split: option.splits)
next
  case TriggerAllJobs
  with assms show ?thesis by (simp add: triggerAllJobs_def cronInv_fold cronInv_execute)
next
  case (Settle a r)
  with assms show ?thesis by (simp add: cronInv_settle)
next
  case (RemoveJob x)
  with assms show ?thesis by (auto simp: removeJob_def cronInv_def)
next
  case Reset
  with assms show ?thesis by (simp add: cronInv_def)
qed

lemma cronInv_run: "cronInv s \<Longrightarrow> cronInv (run es s)"
  by (induction es arbitrary: s) (auto simp: cronInv_step)

lemma executeJob_running: "isRunning (objects s ! a) \<Longrightarrow> executeJob now a s = s"
  by (simp add: executeJob_def Let_def)

lemma executeJob_other: "a \<noteq> b \<Longrightarrow> objects (executeJob now b s) ! a = objects s ! a"
  by (simp add: executeJob_def Let_def)

lemma tick_skips_fold:
  "isRunning (objects s ! a) \<Longrightarrow>
   objects (fold (\<lambda>b s'. if isDue now (objects s' ! b) then executeJob now b s' else s') bs s) ! a
     = objects s ! a"
proof (induction bs arbitrary: s)
  case Nil
  then show ?case by simp
next
  case (Cons b bs)
  let ?s1 = "if isDue now (objects s ! b) then executeJob now b s else s"
  have "objects ?s1 ! a = objects s ! a"
    using Cons.prems by (cases "a = b") (auto simp: isDue_def executeJob_other)
  with Cons.IH[of ?s1] Cons.prems show ?case by simp
qed

lemma tick_skips: "isRunning (objects s ! a) \<Longrightarrow> objects (checkAndRunJobs now s) ! a = objects s ! a"
  by (simp add: checkAndRunJobs_def tick_skips_fold)

lemma triggerAll_skips_fold:
  "isRunning (objects s ! a) \<Longrightarrow> objects (fold (executeJob now) bs s) ! a = objects s ! a"
proof (induction bs arbitrary: s)
  case Nil
  then show ?case by simp
next
  case (Cons b bs)
  have "objects (executeJob now b s) ! a = objects s ! a"
    using Cons.prems by (cases "a = b") (auto simp: executeJob_running executeJob_other)
  with Cons.IH[of "executeJob now b s"] Cons.prems show ?case by simp
qed

lemma triggerAll_skips:
  "isRunning (objects s ! a) \<Longrightarrow> objects (triggerAllJobs now s) ! a = objects s ! a"
  by (simp add: triggerAllJobs_def triggerAll_skips_fold)

lemma overlapping_triggers:
  assumes inv: "cronInv s" and j: "map_of (jobs s) j = Some a" and nr: "\<not> isRunning (objects s ! a)"
  shows "\<exists>s1. triggerJob now j s = Inr s1 \<and> triggerJob now' j s1 = Inr s1 \<and>
           runCount (objects s1 ! a) = runCount (objects s ! a) + 1 \<and> count_list (pending s1) a = 1"
proof -
  from j have "(j, a) \<in> set (jobs s)" by (rule map_of_SomeD)
  with inv have len: "a < length (objects s)" by (auto simp: cronInv_def)
  from inv nr len have np: "a \<notin> set (pending s)" by (simp add: cronInv_def)
  let ?s1 = "executeJob now a s"
  have 1: "triggerJob now j s = Inr ?s1" using j nr by (simp add: triggerJob_def)
  have jobs1: "jobs ?s1 = jobs s" by (simp add: executeJob_def Let_def)
  have run1: "isRunning (objects ?s1 ! a)" using nr len by (simp add: executeJob_def Let_def)
  have 2: "triggerJob now' j ?s1 = Inr ?s1" using j jobs1 run1 by (simp add: triggerJob_def)
  have 3: "runCount (objects ?s1 ! a) = runCount (objects s ! a) + 1"
    using nr len by (simp add: executeJob_def Let_def)
  have 4: "count_list (pending ?s1) a = 1"
    using nr len np by (simp add: executeJob_def Let_def)
  from 1 2 3 4 show ?thesis by blast
qed

lemma settle_clears:
  assumes inv: "cronInv s" and p: "a \<in> set (pending s)"
  shows "\<not> isRunning (objects (settleJob now a res s) ! a) \<and>
         nextRun (objects (settleJob now a res s) ! a) = Some (calculateNextRun (schedule (objects s ! a)) now) \<and>
         a \<notin> set (pending (settleJob now a res s)) \<and>
         settleJob now a (Rejected e) s = settleJob now a Resolved s"
  using assms by (auto simp: settleJob_def Let_def cronInv_def split: callback_result.splits)

text \<open>Under a name there are never more executions in flight than job objects that were
  created under it.\<close>

lemma inFlight_le:
  assumes "cronInv s"
  shows "inFlight s ident \<le> registrations s ident"
proof -
  let ?P = "\<lambda>job. job_id job = ident"
  let ?as = "filter (\<lambda>a. ?P (objects s ! a)) (pending s)"
  from assms have d: "distinct (pending s)" and b: "\<forall>a \<in> set (pending s). a < length (objects s)"
    by (simp_all add: cronInv_def)
  have "distinct ?as" using d by simp
  then have "length ?as = card (set ?as)" by (rule distinct_card[symmetric])
  also have "\<dots> \<le> card {i. i < length (objects s) \<and> ?P (objects s ! i)}"
    using b by (intro card_mono) auto
  also have "\<dots> = length (filter ?P (objects s))" by (simp add: length_filter_conv_card)
  finally show ?thesis by (simp add: inFlight_def registrations_def)
qed

text \<open>
  C6, as the claim states it for a job that \<open>triggerJob\<close> reaches by its name, fails: the
  guard is the running flag of the job object, and \<open>schedule\<close> under a name that is taken
  puts a fresh object under it. The name \<open>j\<close> is scheduled and triggered, scheduled again
  while that execution is in flight, and triggered again: the second trigger invokes the
  callback of the new object, and two executions are in flight under the one name.
\<close>

theorem rescheduled_job_counterexample:
  "map_of (jobs (run (take 2 exReschedule) newCron)) ''j'' = Some 0 \<and>
   pending (run (take 2 exReschedule) newCron) = [0] \<and>
   map_of (jobs (run exReschedule newCron)) ''j'' = Some 1 \<and>
   pending (run exReschedule newCron) = [0, 1] \<and>
   job_id (objects (run exReschedule newCron) ! 0) = ''j'' \<and>
   job_id (objects (run exReschedule newCron) ! 1) = ''j'' \<and>
   inFlight (run exReschedule newCron) ''j'' = 2"
  by code_simp

text \<open>
  C6, amended. A job is a job object, as \<open>schedule\<close> creates it, and an execution of it is
  in flight from the invocation of its callback until the callback settles. In every state
  that the scheduler reaches from its initial state, by any sequence of scheduling,
  removal, start, stop, polling rounds, manual triggers, timer firings and settling
  callbacks: no job object has more than one execution in flight, so a name has at most
  as many executions in flight as it has been scheduled, and at most one when it was
  scheduled once; a manual trigger of a name whose job is running returns without a
  change; a polling round and \<open>triggerAllJobs\<close> leave a running job as it is, run counter
  included; two manual triggers of an idle job, the second before the callback of the
  first has settled, invoke the callback once, the second being a no-op; and when the
  callback of an execution settles, by resolving or by throwing, the running flag is
  cleared, the next run is computed anew from the schedule, the execution is no longer in
  flight, and the scheduler state is the same in both cases: the exception goes no
  further.
\<close>

theorem single_execution_per_job:
  assumes "s = run es newCron"
  shows
   "count_list (pending s) a \<le> 1 \<and>
    inFlight s j \<le> registrations s j \<and>
    (registrations s j \<le> 1 \<longrightarrow> inFlight s j \<le> 1) \<and>
    (map_of (jobs s) j = Some a \<and> isRunning (objects s ! a) \<longrightarrow> triggerJob now j s = Inr s) \<and>
    (isRunning (objects s ! a) \<longrightarrow>
       objects (checkAndRunJobs now s) ! a = objects s ! a \<and>
       objects (triggerAllJobs now s) ! a = objects s ! a) \<and>
    (map_of (jobs s) j = Some a \<and> \<not> isRunning (objects s ! a) \<longrightarrow>
       (\<exists>s1. triggerJob now j s = Inr s1 \<and> triggerJob now' j s1 = Inr s1 \<and>
             runCount (objects s1 ! a) = runCount (objects s ! a) + 1 \<and>
             count_list (pending s1) a = 1)) \<and>
    (a \<in> set (pending s) \<longrightarrow>
       \<not> isRunning (objects (settleJob now a res s) ! a) \<and>
       nextRun (objects (settleJob now a res s) ! a) = Some (calculateNextRun (schedule (objects s ! a)) now) \<and>
       a \<notin> set (pending (settleJob now a res s)) \<and>
       settleJob now a (Rejected e) s = settleJob now a Resolved s)"
proof -
  have inv: "cronInv s" using assms cronInv_run[OF cronInv_new] by simp
  have 1: "count_list (pending s) a \<le> 1"
    using inv distinct_count_le[of "pending s" a] by (simp add: cronInv_def)
  have n: "inFlight s j \<le> registrations s j" using inv by (rule inFlight_le)
  have n1: "registrations s j \<le> 1 \<longrightarrow> inFlight s j \<le> 1" using n by simp
  have 2: "map_of (jobs s) j = Some a \<and> isRunning (objects s ! a) \<longrightarrow> triggerJob now j s = Inr s"
    by (simp add: triggerJob_def)
  have 3: "isRunning (objects s ! a) \<longrightarrow>
       objects (checkAndRunJobs now s) ! a = objects s ! a \<and>
       objects (triggerAllJobs now s) ! a = objects s ! a"
    by (simp add: tick_skips triggerAll_skips)
  have 4: "map_of (jobs s) j = Some a \<and> \<not> isRunning (objects s ! a) \<longrightarrow>
       (\<exists>s1. triggerJob now j s = Inr s1 \<and> triggerJob now' j s1 = Inr s1 \<and>
             runCount (objects s1 ! a) = runCount (objects s ! a) + 1 \<and>
             count_list (pending s1) a = 1)"
    using overlapping_triggers[OF inv] by blast
  have 5: "a \<in> set (pending s) \<longrightarrow>
       \<not> isRunning (objects (settleJob now a res s) ! a) \<and>
       nextRun (objects (settleJob now a res s) ! a) = Some (calculateNextRun (schedule (objects s ! a)) now) \<and>
       a \<notin> set (pending (settleJob now a res s)) \<and>
       settleJob now a (Rejected e) s = settleJob now a Resolved s"
    using settle_clears[OF inv] by blast
  show ?thesis by (intro conjI 1 n n1 2 3 4 5)
qed

theorem single_execution_per_job_witness:
  "run exEvents newCron = run exEvents newCron \<and>
   map_of (jobs (run exEvents newCron)) ''daily'' = Some 0 \<and>
   registrations (run exEvents newCron) ''daily'' \<le> 1 \<and>
   inFlight (run exEvents newCron) ''daily'' \<le> 1 \<and>
   isRunning (objects (run exEvents newCron) ! 0) \<and>
   runCount (objects (run exEvents newCron) ! 0) = 1 \<and>
   triggerJob 2 ''daily'' (run exEvents newCron) = Inr (run exEvents newCron) \<and>
   0 \<in> set (pending (run exEvents newCron)) \<and>
   \<not> isRunning (objects (settleJob 3 0 (Rejected (Error ''boom'')) (run exEvents newCron)) ! 0) \<and>
   nextRun (objects (settleJob 3 0 (Rejected (Error ''boom'')) (run exEvents newCron)) ! 0) = Some 10003"
proof -
  have r: "run exEvents newCron = run exEvents newCron" by (rule refl)
  have m: "map_of (jobs (run exEvents newCron)) ''daily'' = Some 0" by code_simp
  have g: "registrations (run exEvents newCron) ''daily'' \<le> 1" by code_simp
  have i: "isRunning (objects (run exEvents newCron) ! 0)" by code_simp
  have c: "runCount (objects (run exEvents newCron) ! 0) = 1" by code_simp
  have p: "0 \<in> set (pending (run exEvents newCron))" by code_simp
  have n: "calculateNextRun (schedule (objects (run exEvents newCron) ! 0)) 3 = 10003" by code_simp
  note I = single_execution_per_job[OF r, where a = 0 and j = "''daily''" and now = 2]
  note f = I[THEN conjunct2, THEN conjunct2, THEN conjunct1, THEN mp, OF g]
  note t = I[THEN conjunct2, THEN conjunct2, THEN conjunct2, THEN conjunct1, THEN mp, OF conjI[OF m i]]
  note J = single_execution_per_job[OF r, where a = 0 and now = 3 and res = "Rejected (Error ''boom'')"]
  note S = J[THEN conjunct2, THEN conjunct2, THEN conjunct2, THEN conjunct2, THEN conjunct2, THEN conjunct2,
      THEN mp, OF p]
  have x: "nextRun (objects (settleJob 3 0 (Rejected (Error ''boom'')) (run exEvents newCron)) ! 0) = Some 10003"
    using S[THEN conjunct2, THEN conjunct1] n by simp
  show ?thesis by (intro conjI r m g f i c t p S[THEN conjunct1] x)
qed


end
